theory Spec2Isabelle
  imports Complex_Main "HOL-Library.Word" "HOL-Library.Multiset" "HOL-Library.Log_Nat"
begin

section \<open>Values and errors\<close>

text \<open>
  The module \<^verbatim>\<open>vis_on_image.py\<close> works on numpy arrays.  A Python exception is a value
  of type \<open>error\<close>; a function that can raise returns \<open>error + 'a\<close>, with \<open>Inl\<close> the
  exception.
\<close>

datatype error = ValueError | IndexError

definition bindE :: "error + 'a \<Rightarrow> ('a \<Rightarrow> error + 'b) \<Rightarrow> error + 'b" where
  "bindE m f = (case m of Inl e \<Rightarrow> Inl e | Inr v \<Rightarrow> f v)"

text \<open>
  The entries of a floating point array: the finite values (every finite float is a
  rational; \<open>-0.0\<close> and \<open>0.0\<close> are both \<open>Fin 0\<close>, they compare equal), the two
  infinities and NaN.  Comparison, minimum and negation are exact in IEEE arithmetic, so
  they are modelled exactly.
\<close>

datatype fval = NaN | NInf | Fin rat | PInf

text \<open>\<^verbatim>\<open>a == b\<close> on floats: NaN equals nothing.\<close>

definition feq :: "fval \<Rightarrow> fval \<Rightarrow> bool" where
  "feq a b = (a \<noteq> NaN \<and> b \<noteq> NaN \<and> a = b)"

text \<open>\<^verbatim>\<open>a < b\<close> on floats: false when either side is NaN.\<close>

fun flt :: "fval \<Rightarrow> fval \<Rightarrow> bool" where
  "flt NaN b = False"
| "flt a NaN = False"
| "flt a NInf = False"
| "flt NInf b = True"
| "flt PInf b = False"
| "flt (Fin p) (Fin q) = (p < q)"
| "flt (Fin p) PInf = True"

text \<open>\<^verbatim>\<open>np.minimum\<close>, the step of \<^verbatim>\<open>ndarray.min\<close>: NaN propagates.\<close>

definition fmin :: "fval \<Rightarrow> fval \<Rightarrow> fval" where
  "fmin a b = (if a = NaN \<or> b = NaN then NaN else if flt b a then b else a)"

text \<open>\<^verbatim>\<open>x * -1.0\<close>: the sign flips, NaN stays NaN.\<close>

fun fneg :: "fval \<Rightarrow> fval" where
  "fneg NaN = NaN"
| "fneg NInf = PInf"
| "fneg (Fin q) = Fin (- q)"
| "fneg PInf = NInf"

section \<open>Float division and bytes\<close>

text \<open>
  The source turns bytes into floats by a division by 255, and that division rounds.  A
  finite binary float is a pair of a mantissa and an exponent, of value mantissa times
  two to the exponent.  \<open>round_ratio p a b\<close> is the quotient of the positive integers
  \<open>a\<close> and \<open>b\<close> rounded to \<open>p\<close> significant bits, to the nearest float and to the even
  mantissa on a tie, as IEEE division of two exactly represented operands gives it
  (\<open>p\<close> is 24 for \<^verbatim>\<open>float32\<close> and 53 for \<^verbatim>\<open>float64\<close>; the exponent range plays no
  part for the values that occur here, which lie between 1/255 and 1).  The first step
  finds \<open>e\<close> with \<open>2^e \<le> a / b < 2^(e + 1)\<close>; the mantissa is then the rounded quotient
  of \<open>a * 2^k\<close> by \<open>b\<close> with \<open>k = p - 1 - e\<close>.  \<open>round_half_even num den\<close> is the
  integer nearest to \<open>num / den\<close>, the even one when two are equally near.
\<close>

type_synonym u8 = "8 word"

definition pow2 :: "int \<Rightarrow> rat" where
  "pow2 e = (if 0 \<le> e then 2 ^ nat e else 1 / 2 ^ nat (- e))"

definition round_half_even :: "int \<Rightarrow> int \<Rightarrow> int" where
  "round_half_even num den =
     (let m = num div den; r = num mod den
      in if 2 * r < den then m else if den < 2 * r then m + 1 else if even m then m else m + 1)"

definition round_ratio :: "nat \<Rightarrow> int \<Rightarrow> int \<Rightarrow> int \<times> int" where
  "round_ratio p a b =
     (if a = 0 then (0, 0) else
      let d = bitlen a - bitlen b;
          e = (if (if 0 \<le> d then b * 2 ^ nat d \<le> a else b \<le> a * 2 ^ nat (- d)) then d else d - 1);
          k = int p - 1 - e;
          num = (if 0 \<le> k then a * 2 ^ nat k else a);
          den = (if 0 \<le> k then b else b * 2 ^ nat (- k))
      in (round_half_even num den, - k))"

definition float_value :: "int \<times> int \<Rightarrow> rat" where
  "float_value f = (case f of (m, e) \<Rightarrow> of_int m * pow2 e)"

text \<open>
  A float operation whose exact result is a rational \<open>q\<close>: the result is \<open>q\<close>, read
  as its numerator over its denominator, rounded to \<open>p\<close> bits (the sign is put back
  after the magnitude has been rounded).  \<^verbatim>\<open>float32\<close> addition is the exact sum
  rounded to 24 bits.
\<close>

definition round_float :: "nat \<Rightarrow> rat \<Rightarrow> rat" where
  "round_float p q =
     (case quotient_of \<bar>q\<bar> of (a, b) \<Rightarrow> sgn q * float_value (round_ratio p a b))"

definition add_float32 :: "rat \<Rightarrow> rat \<Rightarrow> rat" where
  "add_float32 s f = round_float 24 (s + f)"

text \<open>
  Two notions for the proofs about rounding: the integer nearest to a rational (ties to
  even), which \<open>round_half_even\<close> computes, and the largest factor by which rounding
  to 24 bits can raise a positive value.
\<close>

definition rne :: "rat \<Rightarrow> int" where
  "rne q = (let m = \<lfloor>q\<rfloor>; r = q - of_int m
            in if 2 * r < 1 then m else if 1 < 2 * r then m + 1 else if even m then m else m + 1)"

definition ulp_factor :: rat where
  "ulp_factor = 1 + 1 / 2 ^ 24"

text \<open>\<^verbatim>\<open>astype(np.float32)\<close> of a \<^verbatim>\<open>float64\<close>: the value rounded to 24 bits.\<close>

definition astype_float32 :: "int \<times> int \<Rightarrow> int \<times> int" where
  "astype_float32 f =
     (case f of (m, e) \<Rightarrow>
        round_ratio 24 (if 0 \<le> e then m * 2 ^ nat e else m) (if 0 \<le> e then 1 else 2 ^ nat (- e)))"

text \<open>
  Line 148, \<^verbatim>\<open>np.asarray(scene_rgba).astype(np.float32) / 255.0\<close>: a \<^verbatim>\<open>float32\<close>
  division, entry by entry.
\<close>

definition normalize8 :: "u8 \<Rightarrow> rat" where
  "normalize8 b = float_value (round_ratio 24 (uint b) 255)"

text \<open>
  Line 145, \<^verbatim>\<open>(np.asarray(original_image) / 255.0).astype(np.float32)\<close>: a
  \<^verbatim>\<open>float64\<close> division, then the cast.
\<close>

definition normalize_image8 :: "u8 \<Rightarrow> rat" where
  "normalize_image8 b = float_value (astype_float32 (round_ratio 53 (uint b) 255))"

text \<open>
  What is checked of every byte \<open>n\<close>, by running the two divisions: the \<^verbatim>\<open>float32\<close>
  quotient \<open>m * 2^e\<close> lies between \<open>n / 255\<close> and \<open>(n + 1) / 255\<close> (the division never
  rounds below the exact quotient), it is at most 1, it is 0 for the byte 0, and the
  \<^verbatim>\<open>float64\<close> division followed by the cast gives the same float.
\<close>

definition byte_check :: "int \<Rightarrow> bool" where
  "byte_check n =
     (case round_ratio 24 n 255 of (m, e) \<Rightarrow>
        e \<le> 0 \<and> n * 2 ^ nat (- e) \<le> m * 255 \<and> m * 255 < (n + 1) * 2 ^ nat (- e)
        \<and> m \<le> 2 ^ nat (- e) \<and> (0 < n \<or> m = 0)
        \<and> astype_float32 (round_ratio 53 n 255) = (m, e))"

section \<open>The renderer adapter: \<^verbatim>\<open>get_scene_render\<close>\<close>

text \<open>
  \<^verbatim>\<open>camera_translation\<close> is a one-dimensional float array that the caller owns, so it
  lives in a store of arrays, addressed by \<open>addr\<close>; the function receives the address.
  pyrender is an external library: the offscreen renderer is the parameter \<open>render\<close>,
  applied to everything the function puts into the scene (the three Raymond lights are
  the same in every call and are left out of the record).
\<close>

type_synonym addr = nat
type_synonym vec_heap = "addr \<Rightarrow> fval list"

record 'm render_call =
  rc_mesh :: 'm
  rc_viewport :: "nat \<times> nat"
  rc_fx :: fval
  rc_fy :: fval
  rc_cx :: fval
  rc_cy :: fval
  rc_pose :: "fval list list"

text \<open>\<^verbatim>\<open>a[i]\<close> on a one-dimensional array.\<close>

definition getitem :: "'a list \<Rightarrow> nat \<Rightarrow> error + 'a" where
  "getitem xs i = (if i < length xs then Inr (xs ! i) else Inl IndexError)"

text \<open>
  \<^verbatim>\<open>camera_pose = np.eye(4); camera_pose[:3, 3] = camera_translation\<close>: the translation
  needs three entries, or one that is broadcast to the three rows.
\<close>

definition camera_pose_of :: "fval list \<Rightarrow> error + fval list list" where
  "camera_pose_of t =
     (if length t = 3 \<or> length t = 1 then
        (let tx = t ! 0; ty = t ! (if length t = 1 then 0 else 1);
             tz = t ! (if length t = 1 then 0 else 2)
         in Inr [[Fin 1, Fin 0, Fin 0, tx],
                 [Fin 0, Fin 1, Fin 0, ty],
                 [Fin 0, Fin 0, Fin 1, tz],
                 [Fin 0, Fin 0, Fin 0, Fin 1]])
      else Inl ValueError)"

definition get_scene_render ::
  "('m render_call \<Rightarrow> 'r) \<Rightarrow> vec_heap \<Rightarrow> 'm \<Rightarrow> nat \<Rightarrow> nat \<Rightarrow> fval list \<Rightarrow> addr \<Rightarrow> fval
     \<Rightarrow> vec_heap \<times> (error + 'r)" where
  "get_scene_render render h body_mesh image_width image_height camera_center
       camera_translation camera_focal_length =
     (case h camera_translation of
        [] \<Rightarrow> (h, Inl IndexError)
      | t0 # ts \<Rightarrow>
          (let h' = h(camera_translation := fneg t0 # ts)
           in (h',
               bindE (camera_pose_of (h' camera_translation)) (\<lambda>camera_pose.
               bindE (getitem camera_center 0) (\<lambda>cx.
               bindE (getitem camera_center 1) (\<lambda>cy.
                 Inr (render \<lparr> rc_mesh = body_mesh,
                               rc_viewport = (image_width, image_height),
                               rc_fx = camera_focal_length, rc_fy = camera_focal_length,
                               rc_cx = cx, rc_cy = cy,
                               rc_pose = camera_pose \<rparr>)))))))"

section \<open>Arrays\<close>

text \<open>
  A numpy array of three dimensions is a list of rows, each a list of pixels, each a list
  of channels: height, width, channels.  Arrays here have no empty axis (the empty list
  stands for any array with one).  \<open>tab3\<close> builds an array from its entries.
\<close>

type_synonym 'a arr3 = "'a list list list"

definition tab3 :: "nat \<Rightarrow> nat \<Rightarrow> nat \<Rightarrow> (nat \<Rightarrow> nat \<Rightarrow> nat \<Rightarrow> 'a) \<Rightarrow> 'a arr3" where
  "tab3 H W C g = map (\<lambda>y. map (\<lambda>x. map (\<lambda>c. g y x c) [0..<C]) [0..<W]) [0..<H]"

definition map3 :: "('a \<Rightarrow> 'b) \<Rightarrow> 'a arr3 \<Rightarrow> 'b arr3" where
  "map3 f a = map (map (map f)) a"

definition shape2 :: "'a list list \<Rightarrow> nat \<times> nat" where
  "shape2 a = (case a of [] \<Rightarrow> (0, 0) | r # _ \<Rightarrow> (length a, length r))"

definition shape3 :: "'a arr3 \<Rightarrow> nat \<times> nat \<times> nat" where
  "shape3 a = (case a of [] \<Rightarrow> (0, 0, 0) | r # _ \<Rightarrow> (length a, shape2 r))"

text \<open>
  The representation invariant of an array of a given shape: every row and every pixel
  has the length the shape says.
\<close>

definition has_shape2 :: "nat \<Rightarrow> nat \<Rightarrow> 'a list list \<Rightarrow> bool" where
  "has_shape2 H W a = (length a = H \<and> list_all (\<lambda>r. length r = W) a)"

definition has_shape3 :: "nat \<Rightarrow> nat \<Rightarrow> nat \<Rightarrow> 'a arr3 \<Rightarrow> bool" where
  "has_shape3 H W C a = (length a = H \<and> list_all (has_shape2 W C) a)"

text \<open>
  Broadcasting, numpy's rule for an elementwise operation on two arrays: along each axis
  the lengths agree or one of them is 1, and the axis of length 1 is read at index 0
  throughout; anything else raises \<^verbatim>\<open>ValueError\<close> (operands could not be broadcast
  together).
\<close>

definition broadcast_dim :: "nat \<Rightarrow> nat \<Rightarrow> error + nat" where
  "broadcast_dim m n =
     (if m = n then Inr m else if m = 1 then Inr n else if n = 1 then Inr m
      else Inl ValueError)"

definition broadcast_shapes :: "nat \<times> nat \<times> nat \<Rightarrow> nat \<times> nat \<times> nat \<Rightarrow> error + nat \<times> nat \<times> nat" where
  "broadcast_shapes s t =
     (case (s, t) of ((h1, w1, c1), (h2, w2, c2)) \<Rightarrow>
        bindE (broadcast_dim h1 h2) (\<lambda>H.
        bindE (broadcast_dim w1 w2) (\<lambda>W.
        bindE (broadcast_dim c1 c2) (\<lambda>C. Inr (H, W, C)))))"

definition bget :: "'a arr3 \<Rightarrow> nat \<Rightarrow> nat \<Rightarrow> nat \<Rightarrow> 'a" where
  "bget a y x c =
     (case shape3 a of (h, w, k) \<Rightarrow>
        a ! (if h = 1 then 0 else y) ! (if w = 1 then 0 else x) ! (if k = 1 then 0 else c))"

definition broadcast3 :: "('a \<Rightarrow> 'b \<Rightarrow> 'c) \<Rightarrow> 'a arr3 \<Rightarrow> 'b arr3 \<Rightarrow> error + 'c arr3" where
  "broadcast3 f a b =
     bindE (broadcast_shapes (shape3 a) (shape3 b)) (\<lambda>(H, W, C).
       Inr (tab3 H W C (\<lambda>y x c. f (bget a y x c) (bget b y x c))))"

text \<open>
  \<^verbatim>\<open>np.asarray\<close> of a list of arrays stacks them along a new first axis; the arrays must
  agree in shape (\<^verbatim>\<open>ValueError\<close> otherwise).  The stacked array is kept as the list of
  its items along axis 0.
\<close>

definition asarray :: "'a arr3 list \<Rightarrow> error + 'a arr3 list" where
  "asarray arrs =
     (if list_all (\<lambda>a. shape3 a = shape3 (hd arrs)) arrs then Inr arrs else Inl ValueError)"

text \<open>
  \<^verbatim>\<open>np.sum(arrs, axis=0)\<close> for a non-empty list of integer arrays of one shape: the
  entrywise sum.
\<close>

fun sum_axis0 :: "('a::comm_monoid_add) arr3 list \<Rightarrow> 'a arr3" where
  "sum_axis0 [] = []"
| "sum_axis0 (a # as) =
     (case shape3 a of (H, W, C) \<Rightarrow>
        tab3 H W C (\<lambda>y x c. sum_list (map (\<lambda>b. b ! y ! x ! c) (a # as))))"

text \<open>
  \<^verbatim>\<open>np.sum(arrs, axis=0)\<close> for \<^verbatim>\<open>float32\<close> arrays.  Axis 0 is the outermost axis,
  so the reduction adds the items one after the other into an accumulator that starts at
  0, and every addition rounds to \<^verbatim>\<open>float32\<close>.
\<close>

definition sum_float32 :: "rat list \<Rightarrow> rat" where
  "sum_float32 fs = foldl add_float32 0 fs"

fun sum32_axis0 :: "rat arr3 list \<Rightarrow> rat arr3" where
  "sum32_axis0 [] = []"
| "sum32_axis0 (a # as) =
     (case shape3 a of (H, W, C) \<Rightarrow>
        tab3 H W C (\<lambda>y x c. sum_float32 (map (\<lambda>b. b ! y ! x ! c) (a # as))))"

text \<open>
  \<^verbatim>\<open>arr.min(axis=0)\<close>: the entrywise minimum over the items; an empty axis 0 raises
  \<^verbatim>\<open>ValueError\<close> (the reduction has no identity).
\<close>

definition amin_axis0 :: "fval arr3 list \<Rightarrow> error + fval arr3" where
  "amin_axis0 items =
     (case items of
        [] \<Rightarrow> Inl ValueError
      | d # ds \<Rightarrow>
          (case shape3 d of (H, W, C) \<Rightarrow>
             Inr (tab3 H W C (\<lambda>y x c. fold fmin (map (\<lambda>b. b ! y ! x ! c) ds) (d ! y ! x ! c)))))"

fun mapE :: "('a \<Rightarrow> error + 'b) \<Rightarrow> 'a list \<Rightarrow> error + 'b list" where
  "mapE f [] = Inr []"
| "mapE f (x # xs) = bindE (f x) (\<lambda>y. bindE (mapE f xs) (\<lambda>ys. Inr (y # ys)))"

section \<open>The compositor: \<^verbatim>\<open>combine_scene_image\<close>\<close>

text \<open>
  The arguments.  \<^verbatim>\<open>scene_rgba\<close> is one raster (an array of three dimensions,
  height by width by 4, of bytes) or a list of rasters (an array of four dimensions is
  treated alike).  \<^verbatim>\<open>original_image\<close> is a raster of bytes.  \<^verbatim>\<open>scene_depth\<close> is
  \<^verbatim>\<open>None\<close>, a Python list of depth rasters (height by width, of floats), or a numpy
  array.  The function writes into a depth array it is given, so depth arrays live in a
  store and the argument is the array's address; a Python list is copied by
  \<^verbatim>\<open>np.asarray\<close> before anything is written, so its rasters are passed by value.
  A depth array in the store has two dimensions (one raster) or three (a stack of rasters).

  Floats are rationals in the model.  The division by 255 is rounded as the source's
  float division is, and so is every addition of \<^verbatim>\<open>np.sum(bodies, axis=0)\<close>.
  Multiplying by a mask, clipping and casting to a byte are exact in floating point, and
  so are line 162's \<^verbatim>\<open>float64\<close> sum (one of its two operands is 0 at every entry)
  and the product with 255 of line 163 (a \<^verbatim>\<open>float32\<close> value times 255 fits a
  \<^verbatim>\<open>float64\<close>).  Depth values are only compared, which is exact.
\<close>

datatype scene_rgba_arg = RgbaArray "u8 arr3" | RgbaList "u8 arr3 list"

datatype depth_array = Depth2 "fval list list" | Depth3 "fval list list list"

type_synonym heap = "addr \<Rightarrow> depth_array"

datatype scene_depth_arg = DepthNone | DepthArray addr | DepthList "fval list list list"

text \<open>Lines 134-135: a single raster becomes a batch of one.\<close>

definition expand_dims :: "scene_rgba_arg \<Rightarrow> u8 arr3 list" where
  "expand_dims scene_rgba = (case scene_rgba of RgbaArray r \<Rightarrow> [r] | RgbaList rs \<Rightarrow> rs)"

text \<open>Line 138, \<^verbatim>\<open>np.asarray\<close> of a list of depth rasters: a fresh array of three dimensions.\<close>

definition asarray_depth :: "fval list list list \<Rightarrow> error + depth_array" where
  "asarray_depth ds =
     (if list_all (\<lambda>d. shape2 d = shape2 (hd ds)) ds then Inr (Depth3 ds) else Inl ValueError)"

text \<open>
  Lines 139-140, \<^verbatim>\<open>scene_depth[..., np.newaxis]\<close>: a last axis of length 1 is added
  to an array of two or three dimensions.  The result is given as the list of its items
  along axis 0, which is how the rest of the function reads it (\<^verbatim>\<open>min(axis=0)\<close>,
  \<^verbatim>\<open>scene_depth[idx]\<close>).  For a stack these are the rasters, each height by width by 1.
  For a single raster, axis 0 is the raster's height: the items are its rows, each width
  by 1, and an array of two dimensions broadcasts against one of three as if it had a
  first axis of length 1, which is how a row is written here.
\<close>

fun newaxis_items :: "depth_array \<Rightarrow> fval arr3 list" where
  "newaxis_items (Depth3 ds) = map (map (map (\<lambda>v. [v]))) ds"
| "newaxis_items (Depth2 d) = map (\<lambda>row. [map (\<lambda>v. [v]) row]) d"

text \<open>Line 142, \<^verbatim>\<open>scene_depth[scene_depth == 0] = np.inf\<close>, entry by entry.\<close>

definition place_at_infinity :: "fval \<Rightarrow> fval" where
  "place_at_infinity v = (if feq v (Fin 0) then PInf else v)"

fun map_depth_array :: "(fval \<Rightarrow> fval) \<Rightarrow> depth_array \<Rightarrow> depth_array" where
  "map_depth_array f (Depth2 d) = Depth2 (map (map f) d)"
| "map_depth_array f (Depth3 ds) = Depth3 (map (map (map f)) ds)"

text \<open>Line 143: the depth items together with their minimum along axis 0.\<close>

definition with_min_depth :: "fval arr3 list \<Rightarrow> error + (fval arr3 list \<times> fval arr3) option" where
  "with_min_depth scene_depth =
     bindE (amin_axis0 scene_depth) (\<lambda>min_depth. Inr (Some (scene_depth, min_depth)))"

text \<open>
  Lines 136-143.  The write of line 142 goes through a view of the caller's array when
  the argument is an array, and into the fresh copy when it is a list.
\<close>

definition prepare_depth ::
  "heap \<Rightarrow> scene_depth_arg \<Rightarrow> heap \<times> (error + (fval arr3 list \<times> fval arr3) option)" where
  "prepare_depth h scene_depth =
     (case scene_depth of
        DepthNone \<Rightarrow> (h, Inr None)
      | DepthList ds \<Rightarrow>
          (h, bindE (asarray_depth ds) (\<lambda>arr.
                with_min_depth (newaxis_items (map_depth_array place_at_infinity arr))))
      | DepthArray a \<Rightarrow>
          (let h' = h(a := map_depth_array place_at_infinity (h a))
           in (h', with_min_depth (newaxis_items (h' a)))))"

text \<open>\<^verbatim>\<open>scene[:, :, -1]\<close> with the axis put back by \<^verbatim>\<open>[:, :, np.newaxis]\<close>.\<close>

definition last_channel :: "'a arr3 \<Rightarrow> error + 'a arr3" where
  "last_channel a =
     (case shape3 a of (H, W, C) \<Rightarrow>
        if C = 0 then Inl IndexError else Inr (map (map (\<lambda>p. [last p])) a))"

text \<open>\<^verbatim>\<open>scene[:, :, :-1]\<close>.\<close>

definition but_last_channel :: "'a arr3 \<Rightarrow> 'a arr3" where
  "but_last_channel a = map (map butlast) a"

text \<open>
  The loop body, lines 150-159, for the scene at index \<open>idx\<close>: the scene's masked colours
  (\<^verbatim>\<open>bodies\<close>) and its mask (\<^verbatim>\<open>valid_masks\<close>).
\<close>

definition layer_contribution ::
  "(fval arr3 list \<times> fval arr3) option \<Rightarrow> nat \<Rightarrow> rat arr3 \<Rightarrow> error + (rat arr3 \<times> bool arr3)" where
  "layer_contribution depth idx scene =
     bindE (last_channel scene) (\<lambda>alpha.
     bindE (case depth of
              None \<Rightarrow> Inr (map3 (\<lambda>a. 0 < a) alpha)
            | Some (scene_depth, min_depth) \<Rightarrow>
                bindE (getitem scene_depth idx) (\<lambda>d.
                bindE (broadcast3 feq d min_depth) (\<lambda>depth_mask.
                  broadcast3 (\<and>) (map3 (\<lambda>a. 0 < a) alpha) depth_mask))) (\<lambda>valid_mask.
     bindE (broadcast3 (\<lambda>v m. v * of_bool m) (but_last_channel scene) valid_mask) (\<lambda>body.
       Inr (body, valid_mask))))"

text \<open>\<^verbatim>\<open>np.clip(v, lo, hi)\<close>.\<close>

definition clip :: "rat \<Rightarrow> rat \<Rightarrow> rat \<Rightarrow> rat" where
  "clip v lo hi = min hi (max lo v)"

text \<open>\<^verbatim>\<open>astype(np.uint8)\<close> of a float: the fraction is cut off.\<close>

definition astype_uint8 :: "rat \<Rightarrow> u8" where
  "astype_uint8 v = word_of_int (if 0 \<le> v then \<lfloor>v\<rfloor> else \<lceil>v\<rceil>)"

text \<open>
  Line 148 and the loop of lines 149-159: \<^verbatim>\<open>bodies\<close> and \<^verbatim>\<open>valid_masks\<close> after
  the loop, as one list of pairs.
\<close>

definition contributions ::
  "u8 arr3 list \<Rightarrow> (fval arr3 list \<times> fval arr3) option \<Rightarrow> error + (rat arr3 \<times> bool arr3) list" where
  "contributions scene_rgba depth =
     bindE (asarray scene_rgba) (\<lambda>stacked.
     let scenes_normalized = map (map3 normalize8) stacked in
       mapE (\<lambda>(idx, scene). layer_contribution depth idx scene)
         (enumerate 0 scenes_normalized))"

text \<open>
  Lines 145-162: the float image \<^verbatim>\<open>output_image\<close>.  With no scene at all,
  \<^verbatim>\<open>np.sum([], axis=0)\<close> is a scalar and indexing it raises \<^verbatim>\<open>IndexError\<close>.
\<close>

definition output_image ::
  "u8 arr3 list \<Rightarrow> u8 arr3 \<Rightarrow> (fval arr3 list \<times> fval arr3) option \<Rightarrow> error + rat arr3" where
  "output_image scene_rgba original_image depth =
     (let original_normalized = map3 normalize_image8 original_image in
      bindE (contributions scene_rgba depth) (\<lambda>contributions.
      let bodies = map fst contributions; valid_masks = map snd contributions in
      if valid_masks = [] then Inl IndexError
      else
        let body_mask = map3 (\<lambda>n. (0::nat) < n) (sum_axis0 (map (map3 of_bool) valid_masks)) in
        bindE (broadcast3 (\<lambda>m v. (1 - of_bool m) * v) body_mask original_normalized)
          (\<lambda>background.
        broadcast3 (+) (map3 (\<lambda>v. clip v 0 1) (sum32_axis0 bodies)) background)))"

text \<open>
  The whole function: the store after the call, and the image returned or the exception
  raised.  A write into the caller's depth array (line 142) has happened by the time a
  later line raises.
\<close>

definition combine_scene_image ::
  "heap \<Rightarrow> scene_rgba_arg \<Rightarrow> u8 arr3 \<Rightarrow> scene_depth_arg \<Rightarrow> heap \<times> (error + u8 arr3)" where
  "combine_scene_image h scene_rgba original_image scene_depth =
     (case prepare_depth h scene_depth of (h', depth) \<Rightarrow>
        (h', bindE depth (\<lambda>depth.
             bindE (output_image (expand_dims scene_rgba) original_image depth) (\<lambda>out.
               Inr (map3 (\<lambda>v. astype_uint8 (v * 255)) out)))))"

text \<open>
  For the claims that speak of a layer being selected at a pixel or contributing to it:
  the lists \<^verbatim>\<open>valid_masks\<close> and \<^verbatim>\<open>bodies\<close> that a call has built when the loop
  ends.
\<close>

definition valid_masks :: "heap \<Rightarrow> scene_rgba_arg \<Rightarrow> scene_depth_arg \<Rightarrow> error + bool arr3 list" where
  "valid_masks h scene_rgba scene_depth =
     bindE (snd (prepare_depth h scene_depth)) (\<lambda>depth.
     bindE (contributions (expand_dims scene_rgba) depth) (\<lambda>cs. Inr (map snd cs)))"

definition bodies :: "heap \<Rightarrow> scene_rgba_arg \<Rightarrow> scene_depth_arg \<Rightarrow> error + rat arr3 list" where
  "bodies h scene_rgba scene_depth =
     bindE (snd (prepare_depth h scene_depth)) (\<lambda>depth.
     bindE (contributions (expand_dims scene_rgba) depth) (\<lambda>cs. Inr (map fst cs)))"

section \<open>The compositor, pixel by pixel\<close>

text \<open>
  What the array program computes at one pixel, for a batch of layers of one size with
  depth rasters of the same size (or none).  These functions are proved below to be the
  entries of the arrays that \<^verbatim>\<open>combine_scene_image\<close> builds; the claims are then read
  off them.  \<open>min_depth_at\<close> is the entry of \<^verbatim>\<open>min_depth\<close>, \<open>valid_at\<close> the entry of
  the \<open>i\<close>-th \<^verbatim>\<open>valid_mask\<close>, \<open>output_at\<close> the entry of \<^verbatim>\<open>output_image\<close>.
\<close>

definition min_depth_at :: "fval list list list \<Rightarrow> nat \<Rightarrow> nat \<Rightarrow> fval" where
  "min_depth_at ds y x =
     fold fmin (map (\<lambda>d. place_at_infinity (d ! y ! x)) (tl ds))
       (place_at_infinity (hd ds ! y ! x))"

definition valid_at :: "u8 arr3 list \<Rightarrow> fval list list list option \<Rightarrow> nat \<Rightarrow> nat \<Rightarrow> nat \<Rightarrow> bool" where
  "valid_at ls depth i y x =
     (0 < normalize8 (ls ! i ! y ! x ! 3) \<and>
      (case depth of
         None \<Rightarrow> True
       | Some ds \<Rightarrow> feq (place_at_infinity (ds ! i ! y ! x)) (min_depth_at ds y x)))"

definition output_at ::
  "u8 arr3 list \<Rightarrow> u8 arr3 \<Rightarrow> fval list list list option \<Rightarrow> nat \<Rightarrow> nat \<Rightarrow> nat \<Rightarrow> rat" where
  "output_at ls bg depth y x c =
     clip (sum_float32 (map (\<lambda>i. normalize8 (ls ! i ! y ! x ! c) * of_bool (valid_at ls depth i y x))
                          [0..<length ls])) 0 1
     + (1 - of_bool (0 < (\<Sum>i\<leftarrow>[0..<length ls]. of_bool (valid_at ls depth i y x) :: nat)))
       * normalize8 (bg ! y ! x ! c)"

text \<open>
  The byte of the returned image at a pixel, in integers: where some layer is selected,
  the sum of the selected layers' bytes, at most 255; elsewhere the background's byte.
  It is proved below that the rounded float computation gives exactly this byte.
\<close>

definition byte_at ::
  "u8 arr3 list \<Rightarrow> u8 arr3 \<Rightarrow> fval list list list option \<Rightarrow> nat \<Rightarrow> nat \<Rightarrow> nat \<Rightarrow> u8" where
  "byte_at ls bg depth y x c =
     (if 0 < (\<Sum>i\<leftarrow>[0..<length ls]. of_bool (valid_at ls depth i y x) :: nat)
      then word_of_int (min 255 (\<Sum>i\<leftarrow>[0..<length ls].
             uint (ls ! i ! y ! x ! c) * of_bool (valid_at ls depth i y x)))
      else bg ! y ! x ! c)"

text \<open>The prepared depth arrays of lines 136-143, for a list of depth rasters.\<close>

definition prepared :: "nat \<Rightarrow> nat \<Rightarrow> fval list list list option \<Rightarrow> (fval arr3 list \<times> fval arr3) option" where
  "prepared H W depth =
     (case depth of
        None \<Rightarrow> None
      | Some ds \<Rightarrow>
          Some (map (\<lambda>d. tab3 H W 1 (\<lambda>y x c. place_at_infinity (d ! y ! x))) ds,
                tab3 H W 1 (\<lambda>y x c. min_depth_at ds y x)))"

definition depth_fits :: "nat \<Rightarrow> fval list list list option \<Rightarrow> bool" where
  "depth_fits n depth = (case depth of None \<Rightarrow> True | Some ds \<Rightarrow> length ds = n)"

text \<open>The argument \<^verbatim>\<open>scene_depth\<close> for no depth, or for a list of depth rasters.\<close>

definition depth_arg :: "fval list list list option \<Rightarrow> scene_depth_arg" where
  "depth_arg depth = (case depth of None \<Rightarrow> DepthNone | Some ds \<Rightarrow> DepthList ds)"

text \<open>
  A layer batch as the data model has it: at least one layer, every layer height by
  width by 4, and with depth one depth raster per layer, height by width.
\<close>

definition well_shaped ::
  "nat \<Rightarrow> nat \<Rightarrow> u8 arr3 list \<Rightarrow> fval list list list option \<Rightarrow> bool" where
  "well_shaped H W ls depth =
     (0 < H \<and> 0 < W \<and> ls \<noteq> [] \<and> list_all (has_shape3 H W 4) ls \<and>
      (case depth of
         None \<Rightarrow> True
       | Some ds \<Rightarrow> length ds = length ls \<and> list_all (has_shape2 H W) ds))"

text \<open>
  The same selection for a (layer, depth raster) pair, given the entry of \<^verbatim>\<open>min_depth\<close>;
  used to show that the order of the batch does not matter.
\<close>

definition selected_pair :: "fval option \<Rightarrow> nat \<Rightarrow> nat \<Rightarrow> u8 arr3 \<times> fval list list \<Rightarrow> bool" where
  "selected_pair m y x p =
     (0 < normalize8 (fst p ! y ! x ! 3) \<and>
      (case m of None \<Rightarrow> True | Some v \<Rightarrow> feq (place_at_infinity (snd p ! y ! x)) v))"

section \<open>Properties of \<^verbatim>\<open>get_scene_render\<close>\<close>

lemma fneg_fneg: "fneg (fneg v) = v"
  by (cases v) simp_all

lemma get_scene_render_three:
  assumes "h a = [t0, t1, t2]"
  shows "get_scene_render render h m w ht [cx, cy] a f =
      (h(a := [fneg t0, t1, t2]),
       Inr (render \<lparr> rc_mesh = m, rc_viewport = (w, ht), rc_fx = f, rc_fy = f,
                      rc_cx = cx, rc_cy = cy,
                      rc_pose = [[Fin 1, Fin 0, Fin 0, fneg t0],
                                 [Fin 0, Fin 1, Fin 0, t1],
                                 [Fin 0, Fin 0, Fin 1, t2],
                                 [Fin 0, Fin 0, Fin 0, Fin 1]] \<rparr>))"
  using assms
  by (simp add: get_scene_render_def camera_pose_of_def getitem_def bindE_def Let_def)

text \<open>
  Claim C10.  \<^verbatim>\<open>get_scene_render\<close> negates entry 0 of the caller's
  \<^verbatim>\<open>camera_translation\<close> array in place, before the camera pose is built: after the
  call the array at the caller's address holds the sign-flipped entry (and nothing else
  in the store has changed), and the renderer was given a pose whose horizontal translation
  is the negated entry.  A second call with the same array therefore renders with the
  opposite horizontal translation (the original entry) and restores the array.
\<close>

theorem get_scene_render_negates_translation_in_place:
  assumes "h a = [t0, t1, t2]"
  shows "fst (get_scene_render render h m w ht [cx, cy] a f) = h(a := [fneg t0, t1, t2])
       \<and> snd (get_scene_render render h m w ht [cx, cy] a f) =
           Inr (render \<lparr> rc_mesh = m, rc_viewport = (w, ht), rc_fx = f, rc_fy = f,
                          rc_cx = cx, rc_cy = cy,
                          rc_pose = [[Fin 1, Fin 0, Fin 0, fneg t0],
                                     [Fin 0, Fin 1, Fin 0, t1],
                                     [Fin 0, Fin 0, Fin 1, t2],
                                     [Fin 0, Fin 0, Fin 0, Fin 1]] \<rparr>)
       \<and> fst (get_scene_render render
                 (fst (get_scene_render render h m w ht [cx, cy] a f)) m w ht [cx, cy] a f) = h
       \<and> snd (get_scene_render render
                 (fst (get_scene_render render h m w ht [cx, cy] a f)) m w ht [cx, cy] a f) =
           Inr (render \<lparr> rc_mesh = m, rc_viewport = (w, ht), rc_fx = f, rc_fy = f,
                          rc_cx = cx, rc_cy = cy,
                          rc_pose = [[Fin 1, Fin 0, Fin 0, t0],
                                     [Fin 0, Fin 1, Fin 0, t1],
                                     [Fin 0, Fin 0, Fin 1, t2],
                                     [Fin 0, Fin 0, Fin 0, Fin 1]] \<rparr>)"
proof -
  let ?h1 = "h(a := [fneg t0, t1, t2])"
  note first = get_scene_render_three [of h a t0 t1 t2 render m w ht cx cy f, OF assms]
  have "?h1 a = [fneg t0, t1, t2]"
    by simp
  from get_scene_render_three [of ?h1 a "fneg t0" t1 t2 render m w ht cx cy f, OF this]
  have second: "get_scene_render render ?h1 m w ht [cx, cy] a f =
      (?h1(a := [t0, t1, t2]),
       Inr (render \<lparr> rc_mesh = m, rc_viewport = (w, ht), rc_fx = f, rc_fy = f,
                      rc_cx = cx, rc_cy = cy,
                      rc_pose = [[Fin 1, Fin 0, Fin 0, t0],
                                 [Fin 0, Fin 1, Fin 0, t1],
                                 [Fin 0, Fin 0, Fin 1, t2],
                                 [Fin 0, Fin 0, Fin 0, Fin 1]] \<rparr>))"
    by (simp only: fneg_fneg)
  have restored: "?h1(a := [t0, t1, t2]) = h"
    using assms by (simp add: fun_eq_iff)
  show ?thesis
    unfolding first fst_conv snd_conv second restored by simp
qed

theorem get_scene_render_negates_translation_in_place_witness:
  "fst (get_scene_render rc_pose (\<lambda>_. [Fin 3, Fin 4, Fin 25]) () 640 480 [Fin 320, Fin 240]
          0 (Fin 5000)) 0 = [Fin (- 3), Fin 4, Fin 25]
   \<and> snd (get_scene_render rc_pose (\<lambda>_. [Fin 3, Fin 4, Fin 25]) () 640 480
          [Fin 320, Fin 240] 0 (Fin 5000)) =
       Inr [[Fin 1, Fin 0, Fin 0, Fin (- 3)],
            [Fin 0, Fin 1, Fin 0, Fin 4],
            [Fin 0, Fin 0, Fin 1, Fin 25],
            [Fin 0, Fin 0, Fin 0, Fin 1]]
   \<and> snd (get_scene_render rc_pose
          (fst (get_scene_render rc_pose (\<lambda>_. [Fin 3, Fin 4, Fin 25]) () 640 480
             [Fin 320, Fin 240] 0 (Fin 5000))) () 640 480 [Fin 320, Fin 240] 0 (Fin 5000)) =
       Inr [[Fin 1, Fin 0, Fin 0, Fin 3],
            [Fin 0, Fin 1, Fin 0, Fin 4],
            [Fin 0, Fin 0, Fin 1, Fin 25],
            [Fin 0, Fin 0, Fin 0, Fin 1]]"
  using get_scene_render_negates_translation_in_place
    [of "\<lambda>_. [Fin 3, Fin 4, Fin 25]" 0 "Fin 3" "Fin 4" "Fin 25" rc_pose "()" 640 480
        "Fin 320" "Fin 240" "Fin 5000"]
  by (simp add: get_scene_render_def camera_pose_of_def getitem_def bindE_def)

section \<open>Bytes as floats\<close>

lemma bytes_checked: "list_all byte_check (map int [0..<256])"
  by code_simp

lemma byte_check_uint: "byte_check (uint (b :: u8))"
proof -
  have "unat b < 256"
    using unsigned_less [of b, where 'a = nat] by simp
  then have "uint b \<in> int ` {0..<256}"
    by (intro image_eqI [where x = "unat b"]) simp_all
  then have "uint b \<in> set (map int [0..<256])"
    by (simp only: set_map set_upt)
  with bytes_checked show ?thesis
    unfolding list_all_iff by blast
qed

lemma normalize8_facts:
  "of_int (uint b) \<le> normalize8 b * 255" "normalize8 b * 255 < of_int (uint b) + 1"
  "normalize8 b \<le> 1" "0 \<le> normalize8 b" "normalize8 b = 0 \<longleftrightarrow> b = 0"
  "normalize_image8 b = normalize8 b"
proof -
  obtain m e where r: "round_ratio 24 (uint b) 255 = (m, e)"
    by (cases "round_ratio 24 (uint b) 255")
  let ?k = "nat (- e)"
  from byte_check_uint [of b] r
  have e: "e \<le> 0" and lo: "uint b * 2 ^ ?k \<le> m * 255" and hi: "m * 255 < (uint b + 1) * 2 ^ ?k"
    and one: "m \<le> 2 ^ ?k" and zero: "0 < uint b \<or> m = 0"
    and cast: "astype_float32 (round_ratio 53 (uint b) 255) = (m, e)"
    by (simp_all add: byte_check_def)
  have v: "normalize8 b = of_int m / 2 ^ ?k"
    using e by (cases "e = 0") (simp_all add: normalize8_def r float_value_def pow2_def)
  have "(of_int (uint b * 2 ^ ?k) :: rat) \<le> of_int (m * 255)"
    using lo by (simp only: of_int_le_iff)
  then show "of_int (uint b) \<le> normalize8 b * 255"
    by (simp add: v field_simps)
  have "(of_int (m * 255) :: rat) < of_int ((uint b + 1) * 2 ^ ?k)"
    using hi by (simp only: of_int_less_iff)
  then show "normalize8 b * 255 < of_int (uint b) + 1"
    by (simp add: v field_simps)
  have "(of_int m :: rat) \<le> of_int (2 ^ ?k)"
    using one by (simp only: of_int_le_iff)
  then show "normalize8 b \<le> 1"
    by (simp add: v field_simps)
  have m0: "0 \<le> m"
  proof (rule ccontr)
    assume "\<not> 0 \<le> m"
    then have "m * 255 < 0"
      by simp
    moreover have "0 \<le> uint b * 2 ^ ?k"
      by simp
    ultimately show False
      using lo by linarith
  qed
  then show "0 \<le> normalize8 b"
    by (simp add: v)
  show "normalize8 b = 0 \<longleftrightarrow> b = 0"
  proof
    assume "normalize8 b = 0"
    then have "m = 0"
      by (simp add: v)
    with lo have "uint b * 2 ^ ?k \<le> 0"
      by simp
    then have "uint b \<le> 0"
      by (simp add: mult_le_0_iff)
    then show "b = 0"
      by (simp add: word_uint_eq_iff)
  next
    assume "b = 0"
    then have "uint b = 0"
      by simp
    with zero have "m = 0"
      by simp
    then show "normalize8 b = 0"
      unfolding v by simp
  qed
  show "normalize_image8 b = normalize8 b"
    by (simp add: normalize_image8_def cast normalize8_def r)
qed

lemma normalize8_range: "0 \<le> normalize8 b" "normalize8 b \<le> 1"
  by (rule normalize8_facts)+

lemma normalize8_pos: "0 < normalize8 b \<longleftrightarrow> b \<noteq> 0"
  using normalize8_facts(4,5) [of b] by (auto simp: less_le)

lemma normalize8_0: "normalize8 0 = 0"
  by (simp add: normalize8_facts(5))

lemma normalize8_255: "normalize8 255 = 1"
proof -
  have "of_int (uint (255 :: u8)) \<le> normalize8 255 * 255"
    by (rule normalize8_facts)
  then have "1 \<le> normalize8 255"
    by simp
  with normalize8_facts(3) [of 255] show ?thesis
    by simp
qed

lemma astype_uint8_normalize8: "astype_uint8 (normalize8 b * 255) = b"
proof -
  have "\<lfloor>normalize8 b * 255\<rfloor> = uint b"
    by (rule floor_unique) (rule normalize8_facts)+
  moreover have "0 \<le> normalize8 b * 255"
    using normalize8_facts(4) [of b] by simp
  ultimately show ?thesis
    by (simp add: astype_uint8_def)
qed

section \<open>Rounding to a float\<close>

text \<open>
  For \<open>2^e \<le> q < 2^(e + 1)\<close> the rounded value of \<open>q\<close> is
  \<open>rne (q * 2^k) / 2^k\<close> with \<open>k = p - 1 - e\<close>, whatever quotient of integers \<open>q\<close>
  is given as.  Hence rounding is monotone, leaves a rounded value as it is, and raises a
  positive value by at most the factor \<open>ulp_factor\<close>.  These three facts and the
  checked bytes give the result of this section: the \<^verbatim>\<open>float32\<close> sum of normalised
  bytes, clipped to 1, multiplied by 255 and cut to a byte, is the integer sum of the
  bytes, or 255 if that is smaller, in whatever order the additions are made.
\<close>

lemma pow2_powi: "pow2 e = 2 powi e"
  by (simp add: pow2_def power_int_def field_simps)

lemma round_half_even_rne:
  assumes "0 < den"
  shows "round_half_even num den = rne (of_int num / of_int den)"
proof -
  have fl: "\<lfloor>(of_int num / of_int den :: rat)\<rfloor> = num div den"
    by (simp add: floor_divide_of_int_eq)
  have "(of_int num :: rat) = of_int (num div den * den + num mod den)"
    by simp
  then have "(of_int num :: rat) = of_int (num div den) * of_int den + of_int (num mod den)"
    by (simp only: of_int_add of_int_mult)
  then have r: "(of_int num / of_int den :: rat) - of_int (num div den)
      = of_int (num mod den) / of_int den"
    using assms by (simp add: field_simps)
  have c1: "2 * (of_int (num mod den) / of_int den :: rat) < 1 \<longleftrightarrow> 2 * (num mod den) < den"
    using assms of_int_less_iff [of "2 * (num mod den)" den, where ?'a = rat]
    by (simp add: field_simps)
  have c2: "1 < 2 * (of_int (num mod den) / of_int den :: rat) \<longleftrightarrow> den < 2 * (num mod den)"
    using assms of_int_less_iff [of den "2 * (num mod den)", where ?'a = rat]
    by (simp add: field_simps)
  show ?thesis
    unfolding round_half_even_def rne_def Let_def fl r c1 c2 ..
qed

lemma rne_of_int: "rne (of_int n) = n"
  by (simp add: rne_def)

lemma rne_cases: "rne q = \<lfloor>q\<rfloor> \<and> 2 * (q - of_int \<lfloor>q\<rfloor>) \<le> 1
    \<or> rne q = \<lfloor>q\<rfloor> + 1 \<and> 1 \<le> 2 * (q - of_int \<lfloor>q\<rfloor>)"
  by (auto simp: rne_def Let_def)

lemma rne_mono:
  assumes "q \<le> q'"
  shows "rne q \<le> rne q'"
proof (cases "\<lfloor>q\<rfloor> = \<lfloor>q'\<rfloor>")
  case True
  show ?thesis
    unfolding rne_def Let_def True using assms by auto
next
  case False
  with assms have "\<lfloor>q\<rfloor> + 1 \<le> \<lfloor>q'\<rfloor>"
    using floor_mono [OF assms] by linarith
  moreover have "rne q \<le> \<lfloor>q\<rfloor> + 1" "\<lfloor>q'\<rfloor> \<le> rne q'"
    using rne_cases [of q] rne_cases [of q'] by auto
  ultimately show ?thesis
    by linarith
qed

lemma rne_upper: "of_int (rne q) \<le> q + 1 / 2"
proof -
  have f: "of_int \<lfloor>q\<rfloor> \<le> q"
    by (rule of_int_floor_le)
  from rne_cases [of q] show ?thesis
  proof (elim disjE conjE)
    assume "rne q = \<lfloor>q\<rfloor>"
    then have "(of_int (rne q) :: rat) = of_int \<lfloor>q\<rfloor>"
      by simp
    with f show ?thesis
      by linarith
  next
    assume "rne q = \<lfloor>q\<rfloor> + 1" "1 \<le> 2 * (q - of_int \<lfloor>q\<rfloor>)"
    then show ?thesis
      by simp
  qed
qed

lemma powi_less_imp: "(2::rat) powi m < 2 powi n \<Longrightarrow> m < n"
  using power_int_increasing [of n m "2::rat"] by (cases "m < n") auto

lemma powi_mult: "a + b = c \<Longrightarrow> (2::rat) powi a * 2 powi b = 2 powi c"
  using power_int_add [of "2::rat" a b] by simp

lemma exponent_mono:
  fixes q q' :: rat
  assumes "2 powi e \<le> q" "q \<le> q'" "q' < 2 powi (e' + 1)"
  shows "e \<le> e'"
proof -
  from assms have "(2::rat) powi e < 2 powi (e' + 1)"
    by linarith
  then have "e < e' + 1"
    by (rule powi_less_imp)
  then show ?thesis
    by simp
qed

lemma exponent_unique:
  fixes q :: rat
  assumes "2 powi e \<le> q" "q < 2 powi (e + 1)" "2 powi e' \<le> q" "q < 2 powi (e' + 1)"
  shows "e = e'"
  using exponent_mono [of e q q e'] exponent_mono [of e' q q e] assms by simp

lemma bitlen_powi:
  assumes "0 < a"
  shows "2 powi (bitlen a - 1) \<le> (of_int a :: rat)" "(of_int a :: rat) < 2 powi bitlen a"
proof -
  from assms have l: "1 \<le> bitlen a"
    by (simp add: bitlen_alt_def)
  from bitlen_bounds [OF assms]
  have "(of_int (2 ^ nat (bitlen a - 1)) :: rat) \<le> of_int a" "(of_int a :: rat) < of_int (2 ^ nat (bitlen a))"
    by (simp_all only: of_int_le_iff of_int_less_iff)
  then show "2 powi (bitlen a - 1) \<le> (of_int a :: rat)" "(of_int a :: rat) < 2 powi bitlen a"
    using l by (simp_all add: power_int_def)
qed

lemma ratio_test:
  fixes a b d :: int
  assumes "0 < b"
  shows "(if 0 \<le> d then b * 2 ^ nat d \<le> a else b \<le> a * 2 ^ nat (- d))
     \<longleftrightarrow> 2 powi d \<le> (of_int a / of_int b :: rat)"
proof (cases "0 \<le> d")
  case True
  have "b * 2 ^ nat d \<le> a \<longleftrightarrow> (of_int (b * 2 ^ nat d) :: rat) \<le> of_int a"
    by (simp only: of_int_le_iff)
  also have "\<dots> \<longleftrightarrow> 2 powi d \<le> (of_int a / of_int b :: rat)"
    using assms True by (simp add: power_int_def field_simps)
  finally show ?thesis
    using True by simp
next
  case False
  have "b \<le> a * 2 ^ nat (- d) \<longleftrightarrow> (of_int b :: rat) \<le> of_int (a * 2 ^ nat (- d))"
    by (simp only: of_int_le_iff)
  also have "\<dots> \<longleftrightarrow> 2 powi d \<le> (of_int a / of_int b :: rat)"
    using assms False by (simp add: power_int_def field_simps)
  finally show ?thesis
    using False by simp
qed

lemma ratio_exponent:
  fixes a b :: int
  assumes "0 < a" "0 < b"
  defines "d \<equiv> bitlen a - bitlen b"
  defines "e \<equiv> (if (if 0 \<le> d then b * 2 ^ nat d \<le> a else b \<le> a * 2 ^ nat (- d)) then d else d - 1)"
  shows "2 powi e \<le> (of_int a / of_int b :: rat)" "(of_int a / of_int b :: rat) < 2 powi (e + 1)"
proof -
  let ?A = "of_int a :: rat" and ?B = "of_int b :: rat"
  note A = bitlen_powi [OF assms(1)] and B = bitlen_powi [OF assms(2)]
  have Bpos: "0 < ?B"
    using assms(2) by simp
  have up: "?A / ?B < 2 powi (d + 1)"
  proof -
    have "?A < 2 powi bitlen a"
      by (rule A)
    also have "\<dots> = 2 powi (bitlen b - 1) * 2 powi (d + 1)"
      by (simp add: d_def flip: power_int_add)
    also have "\<dots> \<le> ?B * 2 powi (d + 1)"
      by (rule mult_right_mono) (use B in simp_all)
    finally show ?thesis
      using Bpos by (simp add: field_simps)
  qed
  have low: "2 powi (d - 1) \<le> ?A / ?B"
  proof -
    have "?B * 2 powi (d - 1) \<le> 2 powi bitlen b * 2 powi (d - 1)"
      by (rule mult_right_mono) (use B in simp_all)
    also have "\<dots> = 2 powi (bitlen a - 1)"
      by (simp add: d_def flip: power_int_add)
    also have "\<dots> \<le> ?A"
      by (rule A)
    finally show ?thesis
      using Bpos by (simp add: field_simps)
  qed
  show "2 powi e \<le> ?A / ?B"
    using low ratio_test [OF assms(2), of d a] by (simp add: e_def)
  show "?A / ?B < 2 powi (e + 1)"
    using up ratio_test [OF assms(2), of d a] by (auto simp: e_def)
qed


lemma round_ratio_value:
  fixes a b :: int
  assumes "0 < a" "0 < b"
    and e: "2 powi e \<le> (of_int a / of_int b :: rat)" "(of_int a / of_int b :: rat) < 2 powi (e + 1)"
  shows "float_value (round_ratio p a b)
    = of_int (rne (of_int a / of_int b * 2 powi (int p - 1 - e))) * 2 powi (e + 1 - int p)"
proof -
  define d where "d = bitlen a - bitlen b"
  define e0 where "e0 = (if (if 0 \<le> d then b * 2 ^ nat d \<le> a else b \<le> a * 2 ^ nat (- d)) then d else d - 1)"
  have e0: "e0 = e"
    using ratio_exponent [OF assms(1,2)] e unfolding d_def [symmetric] e0_def [symmetric]
    by (rule exponent_unique)
  define k where "k = int p - 1 - e"
  define num where "num = (if 0 \<le> k then a * 2 ^ nat k else a)"
  define den where "den = (if 0 \<le> k then b else b * 2 ^ nat (- k))"
  have den: "0 < den"
    using assms(2) by (simp add: den_def)
  have q: "(of_int num / of_int den :: rat) = of_int a / of_int b * 2 powi k"
    by (simp add: num_def den_def power_int_def field_simps)
  have rr: "round_ratio p a b =
      (round_half_even (if 0 \<le> int p - 1 - e0 then a * 2 ^ nat (int p - 1 - e0) else a)
         (if 0 \<le> int p - 1 - e0 then b else b * 2 ^ nat (- (int p - 1 - e0))), - (int p - 1 - e0))"
    using assms(1) by (simp add: round_ratio_def Let_def e0_def d_def)
  have rr': "round_ratio p a b = (round_half_even num den, - k)"
    unfolding rr e0 num_def den_def k_def ..
  have k: "- k = e + 1 - int p"
    by (simp add: k_def)
  show ?thesis
    unfolding rr' float_value_def prod.case pow2_powi round_half_even_rne [OF den] q k
    unfolding k_def ..
qed

lemma round_float_0: "round_float p 0 = 0"
  by (simp add: round_float_def)

lemma quotient_of_pos:
  assumes "0 < q" "quotient_of q = (a, b)"
  shows "0 < a" "0 < b" "q = of_int a / of_int b"
proof -
  show b: "0 < b"
    using assms(2) by (rule quotient_of_denom_pos)
  show q: "q = of_int a / of_int b"
    using assms(2) by (rule quotient_of_div)
  show "0 < a"
    using assms(1) b unfolding q by (simp add: zero_less_divide_iff)
qed

lemma round_float_pos:
  assumes "0 < q" "quotient_of q = (a, b)"
  shows "round_float p q = float_value (round_ratio p a b)"
  using assms by (simp add: round_float_def)

lemma exponent_exists:
  fixes q :: rat
  assumes "0 < q"
  shows "\<exists>e. 2 powi e \<le> q \<and> q < 2 powi (e + 1)"
proof -
  obtain a b where ab: "quotient_of q = (a, b)"
    by (cases "quotient_of q")
  note f = quotient_of_pos [OF assms ab]
  from ratio_exponent [OF f(1,2)] show ?thesis
    unfolding f(3) [symmetric] by blast
qed

lemma round_float_char:
  assumes "0 < q" "2 powi e \<le> q" "q < 2 powi (e + 1)"
  shows "round_float p q = of_int (rne (q * 2 powi (int p - 1 - e))) * 2 powi (e + 1 - int p)"
proof -
  obtain a b where ab: "quotient_of q = (a, b)"
    by (cases "quotient_of q")
  note f = quotient_of_pos [OF assms(1) ab]
  have "round_float p q = float_value (round_ratio p a b)"
    using assms(1) ab by (rule round_float_pos)
  also have "\<dots> = of_int (rne (of_int a / of_int b * 2 powi (int p - 1 - e))) * 2 powi (e + 1 - int p)"
    by (rule round_ratio_value [OF f(1,2)]) (use assms(2,3) f(3) in simp_all)
  finally show ?thesis
    unfolding f(3) [symmetric] .
qed

lemma round_ratio_round_float:
  assumes "0 \<le> a" "0 < b"
  shows "float_value (round_ratio p a b) = round_float p (of_int a / of_int b)"
proof (cases "a = 0")
  case True
  then show ?thesis
    by (simp add: round_ratio_def float_value_def round_float_0)
next
  case False
  with assms have a: "0 < a"
    by simp
  then have q: "0 < (of_int a / of_int b :: rat)"
    using assms(2) by simp
  note e = ratio_exponent [OF a assms(2)]
  show ?thesis
    unfolding round_ratio_value [OF a assms(2) e] round_float_char [OF q e] ..
qed

lemma scaled_range:
  fixes q :: rat
  assumes "2 powi e \<le> q" "q < 2 powi (e + 1)"
  shows "2 powi (int p - 1) \<le> q * 2 powi (int p - 1 - e)" "q * 2 powi (int p - 1 - e) < 2 powi (int p)"
proof -
  have pos: "(0::rat) < 2 powi (int p - 1 - e)"
    by simp
  have "2 powi (int p - 1) = (2::rat) powi e * 2 powi (int p - 1 - e)"
    by (rule powi_mult [symmetric]) simp
  also have "\<dots> \<le> q * 2 powi (int p - 1 - e)"
    using assms(1) pos by (simp only: mult_le_cancel_right_pos)
  finally show "2 powi (int p - 1) \<le> q * 2 powi (int p - 1 - e)" .
  have "q * 2 powi (int p - 1 - e) < 2 powi (e + 1) * 2 powi (int p - 1 - e)"
    using assms(2) pos by (simp only: mult_less_cancel_right_pos)
  also have "\<dots> = 2 powi (int p)"
    by (rule powi_mult) simp
  finally show "q * 2 powi (int p - 1 - e) < 2 powi (int p)" .
qed

lemma powi_of_int:
  "0 < p \<Longrightarrow> (2::rat) powi (int p - 1) = of_int (2 ^ (p - 1))" "(2::rat) powi (int p) = of_int (2 ^ p)"
  by (simp_all add: power_int_def nat_diff_distrib')

lemma rne_range:
  assumes "0 < p" "2 powi (int p - 1) \<le> x" "x < 2 powi (int p)"
  shows "2 ^ (p - 1) \<le> rne x" "rne x \<le> 2 ^ p"
proof -
  have "rne (of_int (2 ^ (p - 1))) \<le> rne x"
    by (rule rne_mono) (use assms in \<open>simp only: powi_of_int\<close>)
  then show "2 ^ (p - 1) \<le> rne x"
    by (simp only: rne_of_int)
  have "rne x \<le> rne (of_int (2 ^ p))"
    by (rule rne_mono) (use assms in \<open>simp only: powi_of_int less_imp_le\<close>)
  then show "rne x \<le> 2 ^ p"
    by (simp only: rne_of_int)
qed

lemma round_float_bounds:
  assumes "0 < p" "0 < q" "2 powi e \<le> q" "q < 2 powi (e + 1)"
  shows "2 powi e \<le> round_float p q" "round_float p q \<le> 2 powi (e + 1)"
proof -
  let ?x = "q * 2 powi (int p - 1 - e)"
  let ?s = "(2::rat) powi (e + 1 - int p)"
  note n = rne_range [OF assms(1) scaled_range [OF assms(3,4), of p]]
  have pos: "0 < ?s"
    by simp
  have "2 powi e = (2::rat) powi (int p - 1) * ?s"
    by (rule powi_mult [symmetric]) simp
  also have "\<dots> = of_int (2 ^ (p - 1)) * ?s"
    by (simp only: powi_of_int(1) [OF assms(1)])
  also have "\<dots> \<le> of_int (rne ?x) * ?s"
    using n(1) pos by (simp only: mult_le_cancel_right_pos of_int_le_iff)
  finally show "2 powi e \<le> round_float p q"
    unfolding round_float_char [OF assms(2-4)] .
  have "of_int (rne ?x) * ?s \<le> of_int (2 ^ p) * ?s"
    using n(2) pos by (simp only: mult_le_cancel_right_pos of_int_le_iff)
  also have "\<dots> = 2 powi (int p) * ?s"
    by (simp only: powi_of_int(2))
  also have "\<dots> = 2 powi (e + 1)"
    by (rule powi_mult) simp
  finally show "round_float p q \<le> 2 powi (e + 1)"
    unfolding round_float_char [OF assms(2-4)] .
qed

lemma round_float_nonneg:
  assumes "0 < p" "0 \<le> q"
  shows "0 \<le> round_float p q"
proof (cases "q = 0")
  case True
  then show ?thesis
    by (simp add: round_float_0)
next
  case False
  with assms have q: "0 < q"
    by simp
  from exponent_exists [OF q] obtain e where e: "2 powi e \<le> q" "q < 2 powi (e + 1)"
    by blast
  have "(0::rat) \<le> 2 powi e"
    by simp
  also note round_float_bounds(1) [OF assms(1) q e]
  finally show ?thesis .
qed

lemma round_float_mono:
  assumes "0 < p" "0 \<le> q" "q \<le> q'"
  shows "round_float p q \<le> round_float p q'"
proof (cases "q = 0")
  case True
  then show ?thesis
    using round_float_nonneg [OF assms(1), of q'] assms by (simp add: round_float_0)
next
  case False
  with assms have q: "0 < q" "0 < q'"
    by simp_all
  from exponent_exists [OF q(1)] obtain e where e: "2 powi e \<le> q" "q < 2 powi (e + 1)"
    by blast
  from exponent_exists [OF q(2)] obtain e' where e': "2 powi e' \<le> q'" "q' < 2 powi (e' + 1)"
    by blast
  have le: "e \<le> e'"
    using e(1) assms(3) e'(2) by (rule exponent_mono)
  show ?thesis
  proof (cases "e = e'")
    case True
    have "rne (q * 2 powi (int p - 1 - e)) \<le> rne (q' * 2 powi (int p - 1 - e))"
      by (rule rne_mono) (use assms(3) in \<open>simp add: mult_le_cancel_right_pos\<close>)
    then have "of_int (rne (q * 2 powi (int p - 1 - e))) * (2::rat) powi (e + 1 - int p)
        \<le> of_int (rne (q' * 2 powi (int p - 1 - e))) * 2 powi (e + 1 - int p)"
      by (simp add: mult_le_cancel_right_pos)
    then show ?thesis
      unfolding round_float_char [OF q(1) e] round_float_char [OF q(2) e' [folded True]] .
  next
    case False
    with le have "e + 1 \<le> e'"
      by simp
    then have "(2::rat) powi (e + 1) \<le> 2 powi e'"
      by (rule power_int_increasing) simp
    with round_float_bounds(2) [OF assms(1) q(1) e] round_float_bounds(1) [OF assms(1) q(2) e']
    show ?thesis
      by linarith
  qed
qed

lemma round_float_normal:
  assumes "0 < p" "2 ^ (p - 1) \<le> n" "n < 2 ^ p"
  shows "round_float p (of_int n * 2 powi j) = of_int n * 2 powi j"
proof -
  let ?v = "of_int n * (2::rat) powi j"
  let ?e = "j + int p - 1"
  have pos: "(0::rat) < 2 powi j"
    by simp
  have "(0::int) < 2 ^ (p - 1)"
    by simp
  with assms(2) have n: "0 < n"
    by linarith
  then have v: "0 < ?v"
    by simp
  have "2 powi ?e = (2::rat) powi (int p - 1) * 2 powi j"
    by (rule powi_mult [symmetric]) simp
  also have "\<dots> = of_int (2 ^ (p - 1)) * 2 powi j"
    by (simp only: powi_of_int(1) [OF assms(1)])
  also have "\<dots> \<le> ?v"
    using assms(2) pos by (simp only: mult_le_cancel_right_pos of_int_le_iff)
  finally have lo: "2 powi ?e \<le> ?v" .
  have "?v < of_int (2 ^ p) * 2 powi j"
    using assms(3) pos by (simp only: mult_less_cancel_right_pos of_int_less_iff)
  also have "\<dots> = 2 powi (int p) * 2 powi j"
    by (simp only: powi_of_int(2))
  also have "\<dots> = 2 powi (?e + 1)"
    by (rule powi_mult) simp
  finally have hi: "?v < 2 powi (?e + 1)" .
  have s: "?v * 2 powi (int p - 1 - ?e) = of_int n"
  proof -
    have "?v * 2 powi (int p - 1 - ?e) = of_int n * (2 powi j * 2 powi (int p - 1 - ?e))"
      by (simp only: mult.assoc)
    also have "2 powi j * (2::rat) powi (int p - 1 - ?e) = 1"
      using powi_mult [of j "int p - 1 - ?e" 0] by simp
    finally show ?thesis
      by simp
  qed
  have j: "?e + 1 - int p = j"
    by simp
  show ?thesis
    unfolding round_float_char [OF v lo hi] s rne_of_int j ..
qed

lemma round_float_idem:
  assumes "0 < p" "0 \<le> q"
  shows "round_float p (round_float p q) = round_float p q"
proof (cases "q = 0")
  case True
  then show ?thesis
    by (simp add: round_float_0)
next
  case False
  with assms have q: "0 < q"
    by simp
  from exponent_exists [OF q] obtain e where e: "2 powi e \<le> q" "q < 2 powi (e + 1)"
    by blast
  let ?n = "rne (q * 2 powi (int p - 1 - e))"
  note n = rne_range [OF assms(1) scaled_range [OF e, of p]]
  note c = round_float_char [OF q e, of p]
  show ?thesis
  proof (cases "?n < 2 ^ p")
    case True
    show ?thesis
      unfolding c by (rule round_float_normal [OF assms(1) n(1) True])
  next
    case False
    with n(2) have top: "?n = 2 ^ p"
      by simp
    have "(of_int (2 ^ p) :: rat) * 2 powi (e + 1 - int p) = 2 powi (int p) * 2 powi (e + 1 - int p)"
      by (simp only: powi_of_int(2))
    also have "\<dots> = 2 powi (e + 1)"
      by (rule powi_mult) simp
    also have "\<dots> = 2 powi (int p - 1) * 2 powi (e + 2 - int p)"
      by (rule powi_mult [symmetric]) simp
    also have "\<dots> = of_int (2 ^ (p - 1)) * 2 powi (e + 2 - int p)"
      by (simp only: powi_of_int(1) [OF assms(1)])
    finally have v: "(of_int (2 ^ p) :: rat) * 2 powi (e + 1 - int p)
        = of_int (2 ^ (p - 1)) * 2 powi (e + 2 - int p)" .
    have "(2::int) ^ (p - 1) < 2 ^ p"
      using assms(1) by (simp add: power_strict_increasing_iff)
    then show ?thesis
      unfolding c top v by (intro round_float_normal [OF assms(1)]) simp_all
  qed
qed

lemma round_float_upper:
  assumes "0 < p" "0 \<le> q"
  shows "round_float p q \<le> q * (1 + 2 powi (- int p))"
proof (cases "q = 0")
  case True
  then show ?thesis
    by (simp add: round_float_0)
next
  case False
  with assms have q: "0 < q"
    by simp
  from exponent_exists [OF q] obtain e where e: "2 powi e \<le> q" "q < 2 powi (e + 1)"
    by blast
  let ?k = "(2::rat) powi (int p - 1 - e)" and ?s = "(2::rat) powi (e + 1 - int p)"
  have ks: "?k * ?s = 1"
    using powi_mult [of "int p - 1 - e" "e + 1 - int p" 0] by simp
  have half: "(1 / 2) * ?s = 2 powi e * 2 powi (- int p)"
  proof -
    have "(1 / 2 :: rat) = 2 powi (- 1)"
      by (simp add: power_int_minus)
    then have "(1 / 2) * ?s = 2 powi (- 1) * ?s"
      by simp
    also have "\<dots> = 2 powi (e - int p)"
      by (rule powi_mult) simp
    also have "\<dots> = 2 powi e * 2 powi (- int p)"
      by (rule powi_mult [symmetric]) simp
    finally show ?thesis .
  qed
  have "round_float p q = of_int (rne (q * ?k)) * ?s"
    by (rule round_float_char [OF q e])
  also have "\<dots> \<le> (q * ?k + 1 / 2) * ?s"
    using rne_upper [of "q * ?k"] by (simp only: mult_le_cancel_right_pos zero_less_power_int zero_less_numeral)
  also have "\<dots> = q * (?k * ?s) + (1 / 2) * ?s"
    by (simp only: distrib_right mult.assoc)
  also have "\<dots> = q + 2 powi e * 2 powi (- int p)"
    by (simp only: ks half mult_1_right)
  also have "\<dots> \<le> q + q * 2 powi (- int p)"
    using e(1) by (simp add: mult_le_cancel_right_pos)
  also have "\<dots> = q * (1 + 2 powi (- int p))"
    by (simp add: distrib_left)
  finally show ?thesis .
qed

lemma uint_byte: "0 \<le> uint (b :: u8)" "uint (b :: u8) \<le> 255"
  using uint_lt2p [of b] by simp_all

lemma byte_ratio_nonneg: "(0::rat) \<le> of_int (uint (b :: u8)) / 255"
proof -
  have "(0::rat) \<le> of_int (uint b)"
    using uint_byte(1) [of b] by (simp only: of_int_0_le_iff)
  then show ?thesis
    by (rule divide_nonneg_nonneg) simp
qed

lemma normalize8_round: "normalize8 b = round_float 24 (of_int (uint b) / 255)"
  unfolding normalize8_def using round_ratio_round_float [of "uint b" 255 24] by simp

lemma round_float_normalize8: "round_float 24 (normalize8 b) = normalize8 b"
  unfolding normalize8_round by (rule round_float_idem) (simp, rule byte_ratio_nonneg)

lemma round_float_1: "round_float 24 1 = 1"
  using round_float_normalize8 [of 255] by (simp add: normalize8_255)

lemma ulp_factor_ge1: "1 \<le> ulp_factor"
  by (simp add: ulp_factor_def)

lemma round_float32_upper:
  assumes "0 \<le> q"
  shows "round_float 24 q \<le> q * ulp_factor"
  using round_float_upper [of 24 q] assms by (simp add: ulp_factor_def power_int_minus)

lemma power_bound:
  fixes u :: rat
  assumes "0 \<le> u" "2 * of_nat n * u \<le> 1"
  shows "(1 + u) ^ n \<le> 1 + 2 * of_nat n * u"
  using assms(2)
proof (induction n)
  case 0
  show ?case
    by simp
next
  case (Suc n)
  have "2 * of_nat n * u \<le> 2 * of_nat (Suc n) * u"
    using assms(1) by (simp add: algebra_simps)
  with Suc.prems have small: "2 * of_nat n * u \<le> 1"
    by linarith
  have "(1 + u) ^ Suc n = (1 + u) ^ n * (1 + u)"
    by simp
  also have "\<dots> \<le> (1 + 2 * of_nat n * u) * (1 + u)"
    by (rule mult_right_mono [OF Suc.IH [OF small]]) (use assms(1) in simp)
  also have "\<dots> = 1 + 2 * of_nat n * u + u + (2 * of_nat n * u) * u"
    by (simp add: algebra_simps)
  also have "\<dots> \<le> 1 + 2 * of_nat n * u + u + 1 * u"
    by (intro add_left_mono mult_right_mono small assms(1))
  also have "\<dots> = 1 + 2 * of_nat (Suc n) * u"
    by (simp add: algebra_simps)
  finally show ?case .
qed

lemma ulp_factor_power:
  assumes "n \<le> 508"
  shows "ulp_factor ^ n \<le> 1 + 1016 / 16777216"
proof -
  have u: "ulp_factor = 1 + 1 / 16777216"
    by (simp add: ulp_factor_def)
  have "ulp_factor ^ n \<le> ulp_factor ^ 508"
    using assms ulp_factor_ge1 by (rule power_increasing)
  also have "\<dots> \<le> 1 + 2 * of_nat 508 * (1 / 16777216)"
    unfolding u by (rule power_bound) simp_all
  also have "\<dots> = 1 + 1016 / 16777216"
    by simp
  finally show ?thesis .
qed

lemma sum_float32_Nil: "sum_float32 [] = 0"
  by (simp add: sum_float32_def)

lemma sum_float32_snoc: "sum_float32 (fs @ [f]) = add_float32 (sum_float32 fs) f"
  by (simp add: sum_float32_def)

lemma sum_float32_zeros:
  assumes "\<forall>f\<in>set fs. f = 0"
  shows "sum_float32 fs = 0"
  using assms
  by (induction fs rule: rev_induct)
    (simp_all add: sum_float32_Nil sum_float32_snoc add_float32_def round_float_0)

lemma uint_sum_nonneg: "0 \<le> (\<Sum>b\<leftarrow>bs. uint (b :: u8))"
  by (rule sum_list_nonneg) auto

lemma sum_float32_bytes:
  fixes bs :: "u8 list"
  shows "0 \<le> sum_float32 (map normalize8 bs)
    \<and> round_float 24 (sum_float32 (map normalize8 bs)) = sum_float32 (map normalize8 bs)
    \<and> of_int (min (\<Sum>b\<leftarrow>bs. uint b) 255) / 255 \<le> sum_float32 (map normalize8 bs)
    \<and> sum_float32 (map normalize8 bs)
        \<le> of_int (\<Sum>b\<leftarrow>bs. uint b) / 255 * ulp_factor ^ nat (2 * (\<Sum>b\<leftarrow>bs. uint b))"
proof (induction bs rule: rev_induct)
  case Nil
  show ?case
    by (simp add: sum_float32_Nil round_float_0)
next
  case (snoc b bs)
  define K where "K = (\<Sum>b\<leftarrow>bs. uint b)"
  define S where "S = sum_float32 (map normalize8 bs)"
  define x where "x = uint b"
  define f where "f = normalize8 b"
  from snoc have S0: "0 \<le> S" and fixed: "round_float 24 S = S"
    and lo: "of_int (min K 255) / 255 \<le> S"
    and hi: "S \<le> of_int K / 255 * ulp_factor ^ nat (2 * K)"
    unfolding K_def S_def by blast+
  have K0: "0 \<le> K"
    unfolding K_def by (rule uint_sum_nonneg)
  have x0: "0 \<le> x" and x255: "x \<le> 255"
    unfolding x_def by (rule uint_byte)+
  have f0: "0 \<le> f"
    unfolding f_def by (rule normalize8_facts)
  have flo: "of_int x / 255 \<le> f"
    using normalize8_facts(1) [of b] by (simp add: f_def x_def field_simps)
  have fhi: "f \<le> of_int x / 255 * ulp_factor"
    unfolding f_def x_def normalize8_round by (rule round_float32_upper) (rule byte_ratio_nonneg)
  have S': "sum_float32 (map normalize8 (bs @ [b])) = round_float 24 (S + f)"
    by (simp add: sum_float32_snoc add_float32_def S_def f_def)
  have K': "(\<Sum>b\<leftarrow>bs @ [b]. uint b) = K + x"
    by (simp add: K_def x_def)
  have sf0: "0 \<le> S + f"
    using S0 f0 by simp
  have a: "0 \<le> round_float 24 (S + f)"
    by (rule round_float_nonneg) (simp_all add: sf0)
  have i: "round_float 24 (round_float 24 (S + f)) = round_float 24 (S + f)"
    by (rule round_float_idem) (simp_all add: sf0)
  have l: "of_int (min (K + x) 255) / 255 \<le> round_float 24 (S + f)"
  proof -
    define t where "t = min (K + x) 255"
    have t: "0 \<le> t" "t \<le> 255"
      using K0 x0 by (simp_all add: t_def)
    define w :: u8 where "w = word_of_int t"
    have w: "uint w = t"
      unfolding w_def using t by (simp add: uint_word_of_int_eq take_bit_int_eq_self)
    have "of_int t / 255 \<le> normalize8 w"
      using normalize8_facts(1) [of w] by (simp add: w field_simps)
    also have "\<dots> = round_float 24 (of_int t / 255)"
      by (simp only: normalize8_round w)
    also have "\<dots> \<le> round_float 24 (S + f)"
    proof (rule round_float_mono)
      have "t \<le> min K 255 + x"
        using x0 by (simp add: t_def)
      then have "(of_int t :: rat) \<le> of_int (min K 255 + x)"
        by (simp only: of_int_le_iff)
      then have "(of_int t :: rat) \<le> of_int (min K 255) + of_int x"
        by (simp only: of_int_add)
      then have "of_int t / 255 \<le> (of_int (min K 255) + of_int x) / (255::rat)"
        by (rule divide_right_mono) simp
      also have "\<dots> = of_int (min K 255) / 255 + of_int x / 255"
        by (rule add_divide_distrib)
      also have "\<dots> \<le> S + f"
        using lo flo by (rule add_mono)
      finally show "of_int t / 255 \<le> S + f" .
      show "0 \<le> (of_int t / 255 :: rat)"
        using t(1) by simp
    qed simp
    finally show ?thesis
      unfolding t_def .
  qed
  have u: "round_float 24 (S + f) \<le> of_int (K + x) / 255 * ulp_factor ^ nat (2 * (K + x))"
  proof (cases "x = 0")
    case True
    then have "b = 0"
      by (simp add: x_def word_uint_eq_iff)
    then have "f = 0"
      by (simp add: f_def normalize8_0)
    with fixed hi True show ?thesis
      by simp
  next
    case False
    with x0 have x1: "1 \<le> x"
      by simp
    let ?n = "nat (2 * K)"
    have n: "Suc (Suc ?n) \<le> nat (2 * (K + x))"
      using K0 x1 by (simp add: Suc_le_eq nat_less_iff le_nat_iff)
    have p1: "ulp_factor ^ ?n \<le> ulp_factor ^ Suc ?n"
      by (rule power_increasing) (simp_all add: ulp_factor_ge1)
    have p2: "ulp_factor \<le> ulp_factor ^ Suc ?n"
      using power_increasing [of 1 "Suc ?n" ulp_factor] ulp_factor_ge1 by simp
    have p3: "ulp_factor ^ Suc (Suc ?n) \<le> ulp_factor ^ nat (2 * (K + x))"
      using n ulp_factor_ge1 by (rule power_increasing)
    have Kr: "(0::rat) \<le> of_int K / 255" and xr: "(0::rat) \<le> of_int x / 255"
      and Kx: "(0::rat) \<le> of_int (K + x) / 255"
      using K0 x0 by simp_all
    have "S \<le> of_int K / 255 * ulp_factor ^ Suc ?n"
      using hi mult_left_mono [OF p1 Kr] by linarith
    moreover have "f \<le> of_int x / 255 * ulp_factor ^ Suc ?n"
      using fhi mult_left_mono [OF p2 xr] by linarith
    ultimately have "S + f \<le> of_int K / 255 * ulp_factor ^ Suc ?n
        + of_int x / 255 * ulp_factor ^ Suc ?n"
      by (rule add_mono)
    also have "\<dots> = of_int (K + x) / 255 * ulp_factor ^ Suc ?n"
      by (simp only: of_int_add add_divide_distrib distrib_right)
    finally have sf: "S + f \<le> of_int (K + x) / 255 * ulp_factor ^ Suc ?n" .
    have E0: "0 \<le> ulp_factor"
      using ulp_factor_ge1 by linarith
    have "round_float 24 (S + f) \<le> (S + f) * ulp_factor"
      by (rule round_float32_upper [OF sf0])
    also have "\<dots> \<le> (of_int (K + x) / 255 * ulp_factor ^ Suc ?n) * ulp_factor"
      using sf E0 by (rule mult_right_mono)
    also have "\<dots> = of_int (K + x) / 255 * ulp_factor ^ Suc (Suc ?n)"
      by (simp add: mult_ac)
    also have "\<dots> \<le> of_int (K + x) / 255 * ulp_factor ^ nat (2 * (K + x))"
      using p3 Kx by (rule mult_left_mono)
    finally show ?thesis .
  qed
  show ?case
    unfolding S' K' by (intro conjI a i l u)
qed

lemma sum_float32_byte:
  fixes bs :: "u8 list"
  shows "astype_uint8 (clip (sum_float32 (map normalize8 bs)) 0 1 * 255)
    = word_of_int (min 255 (\<Sum>b\<leftarrow>bs. uint b))"
proof -
  define K where "K = (\<Sum>b\<leftarrow>bs. uint b)"
  define S where "S = sum_float32 (map normalize8 bs)"
  from sum_float32_bytes [of bs] have S0: "0 \<le> S"
    and lo: "of_int (min K 255) / 255 \<le> S"
    and hi: "S \<le> of_int K / 255 * ulp_factor ^ nat (2 * K)"
    unfolding K_def S_def by blast+
  have K0: "0 \<le> K"
    unfolding K_def by (rule uint_sum_nonneg)
  show ?thesis
  proof (cases "K < 255")
    case True
    then have m: "min K 255 = K" "min 255 K = K"
      by simp_all
    have Kr: "(0::rat) \<le> of_int K / 255"
      using K0 by simp
    have "nat (2 * K) \<le> 508"
      using True by simp
    then have "ulp_factor ^ nat (2 * K) \<le> 1 + 1016 / 16777216"
      by (rule ulp_factor_power)
    then have "of_int K / 255 * ulp_factor ^ nat (2 * K) \<le> of_int K / 255 * (1 + 1016 / 16777216)"
      using Kr by (rule mult_left_mono)
    with hi have "S \<le> of_int K / 255 * (1 + 1016 / 16777216)"
      by linarith
    moreover have "K \<le> 254"
      using True by simp
    then have K254: "(of_int K :: rat) \<le> 254"
      using of_int_le_iff [of K 254, where ?'a = rat] by simp
    ultimately have up: "S * 255 < of_int K + 1"
      by (simp add: field_simps)
    have low: "of_int K \<le> S * 255"
      using lo unfolding m by (simp add: field_simps)
    have "S * 255 < 255"
      using up K254 by linarith
    then have c: "clip S 0 1 = S"
      using S0 by (simp add: clip_def)
    have "\<lfloor>S * 255\<rfloor> = K"
      by (rule floor_unique) (use low up in simp_all)
    moreover have "0 \<le> S * 255"
      using S0 by simp
    ultimately show ?thesis
      unfolding S_def [symmetric] K_def [symmetric] c m by (simp add: astype_uint8_def)
  next
    case False
    then have m: "min K 255 = 255" "min 255 K = 255"
      by simp_all
    from lo have "1 \<le> S"
      unfolding m by simp
    then have c: "clip S 0 1 = 1"
      by (simp add: clip_def)
    show ?thesis
      unfolding S_def [symmetric] K_def [symmetric] c m by (simp add: astype_uint8_def)
  qed
qed

section \<open>Array lemmas\<close>

lemma bindE_Inr [simp]: "bindE (Inr v) f = f v"
  by (simp add: bindE_def)

lemma bindE_Inl [simp]: "bindE (Inl e) f = Inl e"
  by (simp add: bindE_def)

lemma length_tab3 [simp]: "length (tab3 H W C g) = H"
  by (simp add: tab3_def)

lemma length_tab3_row [simp]: "y < H \<Longrightarrow> length (tab3 H W C g ! y) = W"
  by (simp add: tab3_def)

lemma length_tab3_px [simp]: "y < H \<Longrightarrow> x < W \<Longrightarrow> length (tab3 H W C g ! y ! x) = C"
  by (simp add: tab3_def)

lemma nth_tab3 [simp]: "y < H \<Longrightarrow> x < W \<Longrightarrow> c < C \<Longrightarrow> tab3 H W C g ! y ! x ! c = g y x c"
  by (simp add: tab3_def)

lemma tab3_cong [cong]:
  assumes "H = H'" "W = W'" "C = C'"
    and "\<And>y x c. y < H' \<Longrightarrow> x < W' \<Longrightarrow> c < C' \<Longrightarrow> g y x c = g' y x c"
  shows "tab3 H W C g = tab3 H' W' C' g'"
  using assms by (simp add: tab3_def)

lemma has_shape3_tab3 [simp]: "has_shape3 H W C (tab3 H W C g)"
  by (simp add: has_shape3_def has_shape2_def tab3_def list_all_iff)

lemma has_shape3_lengths:
  assumes "has_shape3 H W C a"
  shows "length a = H" and "y < H \<Longrightarrow> length (a ! y) = W"
    and "y < H \<Longrightarrow> x < W \<Longrightarrow> length (a ! y ! x) = C"
  using assms by (auto simp: has_shape3_def has_shape2_def list_all_length)

lemma shape3_has_shape3:
  assumes "has_shape3 H W C a" "0 < H" "0 < W"
  shows "shape3 a = (H, W, C)"
proof -
  from assms obtain r rs where a: "a = r # rs"
    by (cases a) (auto simp: has_shape3_def)
  from assms a have r: "length r = W" "list_all (\<lambda>p. length p = C) r"
    by (auto simp: has_shape3_def has_shape2_def)
  with assms obtain p ps where "r = p # ps"
    by (cases r) auto
  with a r assms show ?thesis
    by (auto simp: shape3_def shape2_def has_shape3_def)
qed

lemma tab3_nth_eq:
  assumes "has_shape3 H W C a"
  shows "tab3 H W C (\<lambda>y x c. a ! y ! x ! c) = a"
proof -
  note l = has_shape3_lengths [OF assms]
  show ?thesis
    by (intro nth_equalityI) (simp_all add: l)
qed

lemma map3_has_shape3:
  assumes "has_shape3 H W C a"
  shows "map3 f a = tab3 H W C (\<lambda>y x c. f (a ! y ! x ! c))"
proof -
  note l = has_shape3_lengths [OF assms]
  show ?thesis
    by (intro nth_equalityI) (simp_all add: l map3_def)
qed

lemma bget_in_range:
  assumes "has_shape3 H W C a" "0 < H" "0 < W" "y < H" "x < W" "c < C"
  shows "bget a y x c = a ! y ! x ! c"
  using assms by (auto simp: bget_def shape3_has_shape3)

lemma bget_chan1:
  assumes "has_shape3 H W 1 a" "0 < H" "0 < W" "y < H" "x < W"
  shows "bget a y x c = a ! y ! x ! 0"
  using assms by (auto simp: bget_def shape3_has_shape3)

lemma broadcast3_same:
  assumes "has_shape3 H W C a" "has_shape3 H W C b" "0 < H" "0 < W"
  shows "broadcast3 f a b = Inr (tab3 H W C (\<lambda>y x c. f (a ! y ! x ! c) (b ! y ! x ! c)))"
  using assms
  by (simp add: broadcast3_def shape3_has_shape3 broadcast_shapes_def broadcast_dim_def
      bget_in_range)

lemma broadcast3_chan_right:
  assumes "has_shape3 H W C a" "has_shape3 H W 1 b" "0 < H" "0 < W"
  shows "broadcast3 f a b = Inr (tab3 H W C (\<lambda>y x c. f (a ! y ! x ! c) (b ! y ! x ! 0)))"
  using assms
  by (simp add: broadcast3_def shape3_has_shape3 broadcast_shapes_def broadcast_dim_def
      bget_in_range bget_chan1)

lemma broadcast3_chan_left:
  assumes "has_shape3 H W 1 a" "has_shape3 H W C b" "0 < H" "0 < W"
  shows "broadcast3 f a b = Inr (tab3 H W C (\<lambda>y x c. f (a ! y ! x ! 0) (b ! y ! x ! c)))"
proof (cases "C = 1")
  case True
  with assms show ?thesis
    by (auto simp: broadcast3_same [of H W 1] intro!: tab3_cong)
next
  case False
  with assms show ?thesis
    by (simp add: broadcast3_def shape3_has_shape3 broadcast_shapes_def broadcast_dim_def
        bget_in_range bget_chan1)
qed

lemma mapE_Inr:
  assumes "\<And>x. x \<in> set xs \<Longrightarrow> f x = Inr (g x)"
  shows "mapE f xs = Inr (map g xs)"
  using assms by (induction xs) simp_all

lemma last_channel_has_shape3:
  assumes "has_shape3 H W (Suc C) a" "0 < H" "0 < W"
  shows "last_channel a = Inr (tab3 H W 1 (\<lambda>y x c. a ! y ! x ! C))"
proof -
  note l = has_shape3_lengths [OF assms(1)]
  have "map (map (\<lambda>p. [last p])) a = tab3 H W 1 (\<lambda>y x c. a ! y ! x ! C)"
    by (intro nth_equalityI) (simp_all add: l last_conv_nth [OF length_greater_0_conv [THEN iffD1]])
  with assms show ?thesis
    by (simp add: last_channel_def shape3_has_shape3)
qed

lemma but_last_channel_has_shape3:
  assumes "has_shape3 H W (Suc C) a"
  shows "but_last_channel a = tab3 H W C (\<lambda>y x c. a ! y ! x ! c)"
proof -
  note l = has_shape3_lengths [OF assms(1)]
  show ?thesis
    by (intro nth_equalityI) (simp_all add: l but_last_channel_def nth_butlast)
qed

lemma sum_axis0_has_shape3:
  assumes "\<And>a. a \<in> set arrs \<Longrightarrow> has_shape3 H W C a" "arrs \<noteq> []" "0 < H" "0 < W"
  shows "sum_axis0 arrs = tab3 H W C (\<lambda>y x c. \<Sum>a\<leftarrow>arrs. a ! y ! x ! c)"
proof -
  from assms obtain a as where arrs: "arrs = a # as"
    by (cases arrs) auto
  with assms have "shape3 a = (H, W, C)"
    by (simp add: shape3_has_shape3)
  with arrs show ?thesis
    by simp
qed

lemma sum32_axis0_has_shape3:
  assumes "\<And>a. a \<in> set arrs \<Longrightarrow> has_shape3 H W C a" "arrs \<noteq> []" "0 < H" "0 < W"
  shows "sum32_axis0 arrs = tab3 H W C (\<lambda>y x c. sum_float32 (map (\<lambda>a. a ! y ! x ! c) arrs))"
proof -
  from assms obtain a as where arrs: "arrs = a # as"
    by (cases arrs) auto
  with assms have "shape3 a = (H, W, C)"
    by (simp add: shape3_has_shape3)
  with arrs show ?thesis
    by simp
qed

lemma amin_axis0_has_shape3:
  assumes "\<And>a. a \<in> set (d # ds) \<Longrightarrow> has_shape3 H W C a" "0 < H" "0 < W"
  shows "amin_axis0 (d # ds) =
    Inr (tab3 H W C (\<lambda>y x c. fold fmin (map (\<lambda>b. b ! y ! x ! c) ds) (d ! y ! x ! c)))"
proof -
  from assms have "shape3 d = (H, W, C)"
    by (simp add: shape3_has_shape3)
  then show ?thesis
    by (simp add: amin_axis0_def)
qed

lemma has_shape2_lengths:
  assumes "has_shape2 H W a"
  shows "length a = H" and "y < H \<Longrightarrow> length (a ! y) = W"
  using assms by (auto simp: has_shape2_def list_all_length)

lemma shape2_has_shape2:
  assumes "has_shape2 H W a" "0 < H"
  shows "shape2 a = (H, W)"
  using assms by (cases a) (auto simp: shape2_def has_shape2_def)

lemma newaxis_has_shape2:
  assumes "has_shape2 H W d"
  shows "map (map (\<lambda>v. [f v])) d = tab3 H W 1 (\<lambda>y x c. f (d ! y ! x))"
proof -
  note l = has_shape2_lengths [OF assms]
  show ?thesis
    by (intro nth_equalityI) (simp_all add: l)
qed

lemma prepare_depth_list:
  assumes ds: "list_all (has_shape2 H W) ds" "ds \<noteq> []" and pos: "0 < H" "0 < W"
  shows "prepare_depth h (DepthList ds) =
    (h, Inr (Some (map (\<lambda>d. tab3 H W 1 (\<lambda>y x c. place_at_infinity (d ! y ! x))) ds,
                   tab3 H W 1 (\<lambda>y x c. min_depth_at ds y x))))"
proof -
  let ?items = "map (\<lambda>d. tab3 H W 1 (\<lambda>y x c. place_at_infinity (d ! y ! x))) ds"
  have shp: "shape2 d = (H, W)" if "d \<in> set ds" for d
    using that ds pos by (simp add: list_all_iff shape2_has_shape2)
  have "list_all (\<lambda>d. shape2 d = shape2 (hd ds)) ds"
    using ds by (simp add: list_all_iff shp)
  then have stack: "asarray_depth ds = Inr (Depth3 ds)"
    by (simp add: asarray_depth_def)
  have items: "newaxis_items (map_depth_array place_at_infinity (Depth3 ds)) = ?items"
  proof -
    have "map (map (\<lambda>v. [v])) (map (map place_at_infinity) d)
        = tab3 H W 1 (\<lambda>y x c. place_at_infinity (d ! y ! x))" if "d \<in> set ds" for d
      using that ds newaxis_has_shape2 [of H W d place_at_infinity]
      by (simp add: list_all_iff comp_def)
    then show ?thesis
      by simp
  qed
  from ds obtain d0 dr where split: "ds = d0 # dr"
    by (cases ds) auto
  have amin: "amin_axis0 ?items = Inr (tab3 H W 1 (\<lambda>y x c. min_depth_at ds y x))"
    unfolding split list.map
    by (subst amin_axis0_has_shape3 [where H = H and W = W and C = 1])
       (auto simp: pos min_depth_at_def comp_def intro!: tab3_cong arg_cong2 [where f = "fold fmin"])
  have "prepare_depth h (DepthList ds) =
      (h, with_min_depth (newaxis_items (map_depth_array place_at_infinity (Depth3 ds))))"
    by (simp add: prepare_depth_def stack del: newaxis_items.simps map_depth_array.simps)
  also have "\<dots> = (h, with_min_depth ?items)"
    by (simp only: items)
  finally show ?thesis
    unfolding with_min_depth_def amin by simp
qed

lemma layer_contribution_None:
  assumes "has_shape3 H W 4 scene" "0 < H" "0 < W"
  shows "layer_contribution None idx scene =
    Inr (tab3 H W 3 (\<lambda>y x c. scene ! y ! x ! c * of_bool (0 < scene ! y ! x ! 3)),
         tab3 H W 1 (\<lambda>y x c. 0 < scene ! y ! x ! 3))"
proof -
  from assms(1) have s4: "has_shape3 H W (Suc 3) scene"
    by simp
  have alpha: "last_channel scene = Inr (tab3 H W 1 (\<lambda>y x c. scene ! y ! x ! 3))"
    by (rule last_channel_has_shape3 [OF s4 assms(2,3)])
  have rgb: "but_last_channel scene = tab3 H W 3 (\<lambda>y x c. scene ! y ! x ! c)"
    by (rule but_last_channel_has_shape3 [OF s4])
  have mask: "map3 (\<lambda>a. 0 < a) (tab3 H W 1 (\<lambda>y x c. scene ! y ! x ! 3))
      = tab3 H W 1 (\<lambda>y x c. 0 < scene ! y ! x ! 3)"
    by (subst map3_has_shape3 [where H = H and W = W and C = 1]) (auto intro!: tab3_cong)
  have body: "broadcast3 (\<lambda>v m. v * of_bool m) (tab3 H W 3 (\<lambda>y x c. scene ! y ! x ! c))
        (tab3 H W 1 (\<lambda>y x c. 0 < scene ! y ! x ! 3))
      = Inr (tab3 H W 3 (\<lambda>y x c. scene ! y ! x ! c * of_bool (0 < scene ! y ! x ! 3)))"
    by (subst broadcast3_chan_right [where H = H and W = W and C = 3])
       (auto simp: assms intro!: tab3_cong)
  show ?thesis
    unfolding layer_contribution_def alpha rgb bindE_Inr option.case mask body ..
qed

lemma layer_contribution_Some:
  assumes "has_shape3 H W 4 scene" "0 < H" "0 < W"
    and "idx < length items" "has_shape3 H W 1 (items ! idx)" "has_shape3 H W 1 mn"
  shows "layer_contribution (Some (items, mn)) idx scene =
    Inr (tab3 H W 3 (\<lambda>y x c. scene ! y ! x ! c *
            of_bool (0 < scene ! y ! x ! 3 \<and> feq (items ! idx ! y ! x ! 0) (mn ! y ! x ! 0))),
         tab3 H W 1 (\<lambda>y x c.
            0 < scene ! y ! x ! 3 \<and> feq (items ! idx ! y ! x ! 0) (mn ! y ! x ! 0)))"
proof -
  let ?V = "\<lambda>y x. 0 < scene ! y ! x ! 3 \<and> feq (items ! idx ! y ! x ! 0) (mn ! y ! x ! 0)"
  from assms(1) have s4: "has_shape3 H W (Suc 3) scene"
    by simp
  have alpha: "last_channel scene = Inr (tab3 H W 1 (\<lambda>y x c. scene ! y ! x ! 3))"
    by (rule last_channel_has_shape3 [OF s4 assms(2,3)])
  have rgb: "but_last_channel scene = tab3 H W 3 (\<lambda>y x c. scene ! y ! x ! c)"
    by (rule but_last_channel_has_shape3 [OF s4])
  have mask: "map3 (\<lambda>a. 0 < a) (tab3 H W 1 (\<lambda>y x c. scene ! y ! x ! 3))
      = tab3 H W 1 (\<lambda>y x c. 0 < scene ! y ! x ! 3)"
    by (subst map3_has_shape3 [where H = H and W = W and C = 1]) (auto intro!: tab3_cong)
  have item: "getitem items idx = Inr (items ! idx)"
    using assms(4) by (simp add: getitem_def)
  have dmask: "broadcast3 feq (items ! idx) mn
      = Inr (tab3 H W 1 (\<lambda>y x c. feq (items ! idx ! y ! x ! 0) (mn ! y ! x ! 0)))"
    using assms
    by (subst broadcast3_same [where H = H and W = W and C = 1])
       (auto intro!: tab3_cong)
  have vmask: "broadcast3 (\<and>) (tab3 H W 1 (\<lambda>y x c. 0 < scene ! y ! x ! 3))
        (tab3 H W 1 (\<lambda>y x c. feq (items ! idx ! y ! x ! 0) (mn ! y ! x ! 0)))
      = Inr (tab3 H W 1 (\<lambda>y x c. ?V y x))"
    using assms
    by (subst broadcast3_same [where H = H and W = W and C = 1])
       (auto intro!: tab3_cong)
  have body: "broadcast3 (\<lambda>v m. v * of_bool m) (tab3 H W 3 (\<lambda>y x c. scene ! y ! x ! c))
        (tab3 H W 1 (\<lambda>y x c. ?V y x))
      = Inr (tab3 H W 3 (\<lambda>y x c. scene ! y ! x ! c * of_bool (?V y x)))"
    by (subst broadcast3_chan_right [where H = H and W = W and C = 3])
       (auto simp: assms intro!: tab3_cong)
  show ?thesis
    unfolding layer_contribution_def alpha rgb bindE_Inr option.case prod.case mask item
      dmask vmask body ..
qed

lemma mapE_enumerate:
  assumes "\<And>i. i < length xs \<Longrightarrow> f (i, xs ! i) = Inr (g i)"
  shows "mapE f (enumerate 0 xs) = Inr (map g [0..<length xs])"
proof -
  have "mapE f (enumerate 0 xs) = Inr (map (\<lambda>p. g (fst p)) (enumerate 0 xs))"
    by (rule mapE_Inr) (auto simp: in_set_enumerate_eq assms)
  also have "map (\<lambda>p. g (fst p)) (enumerate 0 xs) = map g [0..<length xs]"
    by (rule nth_equalityI) (simp_all add: nth_enumerate_eq)
  finally show ?thesis .
qed

lemma sum_axis0_tab3:
  assumes "is \<noteq> []" "0 < H" "0 < W"
  shows "sum_axis0 (map (\<lambda>i. tab3 H W C (G i)) is) = tab3 H W C (\<lambda>y x c. \<Sum>i\<leftarrow>is. G i y x c)"
proof -
  have "sum_axis0 (map (\<lambda>i. tab3 H W C (G i)) is)
      = tab3 H W C (\<lambda>y x c. \<Sum>a\<leftarrow>map (\<lambda>i. tab3 H W C (G i)) is. a ! y ! x ! c)"
    by (rule sum_axis0_has_shape3) (use assms in auto)
  also have "\<dots> = tab3 H W C (\<lambda>y x c. \<Sum>i\<leftarrow>is. G i y x c)"
    by (rule tab3_cong) (simp_all add: comp_def)
  finally show ?thesis .
qed

lemma sum32_axis0_tab3:
  assumes "is \<noteq> []" "0 < H" "0 < W"
  shows "sum32_axis0 (map (\<lambda>i. tab3 H W C (G i)) is)
    = tab3 H W C (\<lambda>y x c. sum_float32 (map (\<lambda>i. G i y x c) is))"
proof -
  have "sum32_axis0 (map (\<lambda>i. tab3 H W C (G i)) is)
      = tab3 H W C (\<lambda>y x c. sum_float32 (map (\<lambda>a. a ! y ! x ! c) (map (\<lambda>i. tab3 H W C (G i)) is)))"
    by (rule sum32_axis0_has_shape3) (use assms in auto)
  also have "\<dots> = tab3 H W C (\<lambda>y x c. sum_float32 (map (\<lambda>i. G i y x c) is))"
    by (rule tab3_cong) (simp_all add: comp_def)
  finally show ?thesis .
qed

lemma contributions_shape:
  assumes ls: "list_all (has_shape3 H W 4) ls" and pos: "0 < H" "0 < W"
    and fits: "depth_fits (length ls) depth"
  shows "contributions ls (prepared H W depth) =
    Inr (map (\<lambda>i. (tab3 H W 3 (\<lambda>y x c. normalize8 (ls ! i ! y ! x ! c) *
                        of_bool (valid_at ls depth i y x)),
                   tab3 H W 1 (\<lambda>y x c. valid_at ls depth i y x))) [0..<length ls])"
proof -
  have shp: "shape3 l = (H, W, 4)" if "l \<in> set ls" for l
    using that ls pos by (simp add: list_all_iff shape3_has_shape3)
  have "list_all (\<lambda>a. shape3 a = shape3 (hd ls)) ls"
    using ls by (cases ls) (simp_all add: list_all_iff shp)
  then have stack: "asarray ls = Inr ls"
    by (simp add: asarray_def)
  let ?scenes = "map (map3 normalize8) ls"
  let ?g = "\<lambda>i. (tab3 H W 3 (\<lambda>y x c. normalize8 (ls ! i ! y ! x ! c) *
                        of_bool (valid_at ls depth i y x)),
                   tab3 H W 1 (\<lambda>y x c. valid_at ls depth i y x))"
  have step: "(case (i, ?scenes ! i) of (idx, scene) \<Rightarrow>
        layer_contribution (prepared H W depth) idx scene) = Inr (?g i)"
    if i: "i < length ?scenes" for i
  proof -
    from i ls have l: "has_shape3 H W 4 (ls ! i)"
      by (simp add: list_all_length)
    have scene: "?scenes ! i = tab3 H W 4 (\<lambda>y x c. normalize8 (ls ! i ! y ! x ! c))"
      using i by (simp add: map3_has_shape3 [OF l])
    show ?thesis
    proof (cases depth)
      case None
      show ?thesis
        unfolding prod.case scene None prepared_def option.case
        by (subst layer_contribution_None [where H = H and W = W])
           (auto simp: pos valid_at_def intro!: tab3_cong)
    next
      case (Some ds)
      with fits i have len: "i < length ds"
        by (simp add: depth_fits_def)
      show ?thesis
        unfolding prod.case scene Some prepared_def option.case
        by (subst layer_contribution_Some [where H = H and W = W])
           (use len in \<open>auto simp: pos valid_at_def intro!: tab3_cong\<close>)
    qed
  qed
  have "mapE (\<lambda>(idx, scene). layer_contribution (prepared H W depth) idx scene)
      (enumerate 0 ?scenes) = Inr (map ?g [0..<length ?scenes])"
    by (rule mapE_enumerate) (rule step)
  then show ?thesis
    by (simp add: contributions_def stack)
qed

lemma output_image_shape:
  assumes ls: "list_all (has_shape3 H W 4) ls" "ls \<noteq> []" and pos: "0 < H" "0 < W"
    and bg: "has_shape3 H W 3 bg"
    and fits: "depth_fits (length ls) depth"
  shows "output_image ls bg (prepared H W depth) = Inr (tab3 H W 3 (output_at ls bg depth))"
proof -
  let ?N = "[0..<length ls]"
  let ?V = "\<lambda>i y x. valid_at ls depth i y x"
  let ?B = "\<lambda>i y x c. normalize8 (ls ! i ! y ! x ! c) * of_bool (?V i y x)"
  let ?count = "\<lambda>y x. (\<Sum>i\<leftarrow>?N. of_bool (?V i y x) :: nat)"
  let ?T = "\<lambda>y x c. sum_float32 (map (\<lambda>i. ?B i y x c) ?N)"
  from ls have ne: "?N \<noteq> []"
    by simp
  note contrib = contributions_shape [OF ls(1) pos fits]
  have counts: "sum_axis0 (map (map3 of_bool) (map (\<lambda>i. tab3 H W 1 (\<lambda>y x c. ?V i y x)) ?N))
      = tab3 H W 1 (\<lambda>y x c. ?count y x)"
  proof -
    have "map (map3 of_bool) (map (\<lambda>i. tab3 H W 1 (\<lambda>y x c. ?V i y x)) ?N)
        = map (\<lambda>i. tab3 H W 1 (\<lambda>y x c. of_bool (?V i y x) :: nat)) ?N"
      by (simp add: comp_def map3_has_shape3 [where H = H and W = W and C = 1]
          del: map_upt_Suc upt_Suc)
    then show ?thesis
      by (simp only: sum_axis0_tab3 [OF ne pos])
  qed
  have body_mask: "map3 (\<lambda>n. (0::nat) < n) (tab3 H W 1 (\<lambda>y x c. ?count y x))
      = tab3 H W 1 (\<lambda>y x c. 0 < ?count y x)"
    by (subst map3_has_shape3 [where H = H and W = W and C = 1]) (auto intro!: tab3_cong)
  have background: "broadcast3 (\<lambda>m v. (1 - of_bool m) * v)
        (tab3 H W 1 (\<lambda>y x c. 0 < ?count y x)) (map3 normalize_image8 bg)
      = Inr (tab3 H W 3 (\<lambda>y x c. (1 - of_bool (0 < ?count y x)) * normalize8 (bg ! y ! x ! c)))"
    unfolding map3_has_shape3 [OF bg]
    by (subst broadcast3_chan_left [where H = H and W = W and C = 3])
       (auto simp: pos normalize8_facts(6) intro!: tab3_cong)
  have total: "sum32_axis0 (map (\<lambda>i. tab3 H W 3 (?B i)) ?N) = tab3 H W 3 ?T"
    by (rule sum32_axis0_tab3 [OF ne pos])
  have clipped: "map3 (\<lambda>v. clip v 0 1) (tab3 H W 3 ?T)
      = tab3 H W 3 (\<lambda>y x c. clip (?T y x c) 0 1)"
    by (subst map3_has_shape3 [where H = H and W = W and C = 3]) (auto intro!: tab3_cong)
  have final: "broadcast3 (+) (tab3 H W 3 (\<lambda>y x c. clip (?T y x c) 0 1))
        (tab3 H W 3 (\<lambda>y x c. (1 - of_bool (0 < ?count y x)) * normalize8 (bg ! y ! x ! c)))
      = Inr (tab3 H W 3 (output_at ls bg depth))"
    by (subst broadcast3_same [where H = H and W = W and C = 3])
       (auto simp: pos output_at_def intro!: tab3_cong)
  let ?g = "\<lambda>i. (tab3 H W 3 (?B i), tab3 H W 1 (\<lambda>y x c. ?V i y x))"
  have masks: "map snd (map ?g ?N) = map (\<lambda>i. tab3 H W 1 (\<lambda>y x c. ?V i y x)) ?N"
    by (simp add: comp_def)
  have bodies: "map fst (map ?g ?N) = map (\<lambda>i. tab3 H W 3 (?B i)) ?N"
    by (simp add: comp_def)
  have nonempty: "map (\<lambda>i. tab3 H W 1 (\<lambda>y x c. ?V i y x)) ?N \<noteq> []"
    using ls(2) by simp
  show ?thesis
    unfolding output_image_def Let_def contrib bindE_Inr masks bodies counts body_mask
      background total clipped final
    using nonempty by simp
qed

lemma prepare_depth_well_shaped:
  assumes "well_shaped H W ls depth"
  shows "prepare_depth h (depth_arg depth) = (h, Inr (prepared H W depth))"
proof (cases depth)
  case None
  then show ?thesis
    by (simp add: prepare_depth_def depth_arg_def prepared_def)
next
  case (Some ds)
  with assms have "list_all (has_shape2 H W) ds" "ds \<noteq> []" "0 < H" "0 < W"
    by (auto simp: well_shaped_def)
  from prepare_depth_list [OF this] Some show ?thesis
    by (simp add: depth_arg_def prepared_def)
qed

lemma well_shaped_fits:
  assumes "well_shaped H W ls depth"
  shows "depth_fits (length ls) depth"
  using assms by (auto simp: well_shaped_def depth_fits_def split: option.splits)

lemma valid_masks_well_shaped:
  assumes "well_shaped H W ls depth"
  shows "valid_masks h (RgbaList ls) (depth_arg depth) =
    Inr (map (\<lambda>i. tab3 H W 1 (\<lambda>y x c. valid_at ls depth i y x)) [0..<length ls])"
proof -
  from assms have ls: "list_all (has_shape3 H W 4) ls" and pos: "0 < H" "0 < W"
    by (auto simp: well_shaped_def)
  note contrib = contributions_shape [OF ls pos well_shaped_fits [OF assms]]
  show ?thesis
    unfolding valid_masks_def prepare_depth_well_shaped [OF assms] snd_conv bindE_Inr
      expand_dims_def scene_rgba_arg.case contrib
    by (simp add: comp_def)
qed

lemma combine_scene_image_well_shaped:
  assumes "well_shaped H W ls depth" "has_shape3 H W 3 bg"
  shows "combine_scene_image h (RgbaList ls) bg (depth_arg depth) =
    (h, Inr (tab3 H W 3 (\<lambda>y x c. astype_uint8 (output_at ls bg depth y x c * 255))))"
proof -
  from assms have ls: "list_all (has_shape3 H W 4) ls" "ls \<noteq> []" and pos: "0 < H" "0 < W"
    by (auto simp: well_shaped_def)
  note out = output_image_shape [OF ls pos assms(2) well_shaped_fits [OF assms(1)]]
  have "map3 (\<lambda>v. astype_uint8 (v * 255)) (tab3 H W 3 (output_at ls bg depth))
      = tab3 H W 3 (\<lambda>y x c. astype_uint8 (output_at ls bg depth y x c * 255))"
    by (subst map3_has_shape3 [where H = H and W = W and C = 3]) (auto intro!: tab3_cong)
  then show ?thesis
    unfolding combine_scene_image_def prepare_depth_well_shaped [OF assms(1)] prod.case
      bindE_Inr expand_dims_def scene_rgba_arg.case out
    by simp
qed

section \<open>Depth comparison and pixel sums\<close>

lemma feq_refl_iff: "feq a a \<longleftrightarrow> a \<noteq> NaN"
  by (simp add: feq_def)

lemma flt_irrefl: "\<not> flt a a"
  by (cases a) simp_all

lemma flt_asym: "flt a b \<Longrightarrow> \<not> flt b a"
  by (cases a; cases b) simp_all

lemma flt_not_NaN: "flt a b \<Longrightarrow> a \<noteq> NaN \<and> b \<noteq> NaN"
  by (cases a; cases b) simp_all

lemma fmin_PInf_iff: "fmin a b = PInf \<longleftrightarrow> a = PInf \<and> b = PInf"
  by (cases a; cases b) (simp_all add: fmin_def)

lemma fold_fmin_PInf_iff: "fold fmin vs a = PInf \<longleftrightarrow> a = PInf \<and> (\<forall>v\<in>set vs. v = PInf)"
  by (induction vs arbitrary: a) (auto simp: fmin_PInf_iff)

lemma fmin_left_commute: "fmin a (fmin b c) = fmin b (fmin a c)"
  by (cases a; cases b; cases c) (auto simp: fmin_def)

lemma fmin_PInf_right: "fmin v PInf = v"
  by (cases v) (simp_all add: fmin_def)

lemma fold_fmin_seed: "fold fmin vs v = fold fmin (v # vs) PInf"
  by (simp add: fmin_PInf_right)

lemma fold_fmin_mset:
  assumes "mset vs = mset ws"
  shows "fold fmin vs a = fold fmin ws a"
proof -
  have "fold fmin vs = fold fmin ws"
    by (rule fold_multiset_equiv) (auto simp: fun_eq_iff fmin_left_commute assms)
  then show ?thesis
    by simp
qed

lemma place_at_infinity_eq: "place_at_infinity v = (if v = Fin 0 then PInf else v)"
  by (auto simp: place_at_infinity_def feq_def)

lemma flt_place_at_infinity:
  assumes "flt a b" "a \<noteq> Fin 0"
  shows "flt (place_at_infinity a) (place_at_infinity b)"
  using assms by (cases a; cases b) (auto simp: place_at_infinity_eq)

lemma sum_list_indicator_none:
  fixes f :: "nat \<Rightarrow> 'a::semiring_1"
  assumes "\<And>i. i < n \<Longrightarrow> \<not> V i"
  shows "(\<Sum>i\<leftarrow>[0..<n]. f i * of_bool (V i)) = 0"
proof -
  have "map (\<lambda>i. f i * of_bool (V i)) [0..<n] = map (\<lambda>i. 0) [0..<n]"
    by (rule map_cong) (simp_all add: assms)
  then show ?thesis
    by (simp only: sum_list_0)
qed

lemma sum_list_indicator_one:
  fixes f :: "nat \<Rightarrow> 'a::semiring_1"
  assumes "k < n" "V k" "\<And>i. i < n \<Longrightarrow> i \<noteq> k \<Longrightarrow> \<not> V i"
  shows "(\<Sum>i\<leftarrow>[0..<n]. f i * of_bool (V i)) = f k"
proof -
  have "(\<Sum>i\<leftarrow>[0..<n]. f i * of_bool (V i)) = (\<Sum>i\<in>{0..<n}. f i * of_bool (V i))"
    by (simp add: interv_sum_list_conv_sum_set_nat)
  also have "\<dots> = (\<Sum>i\<in>{0..<n}. if i = k then f k else 0)"
    by (rule sum.cong) (use assms in auto)
  also have "\<dots> = f k"
    using assms(1) by simp
  finally show ?thesis .
qed

lemma output_at_none:
  assumes "\<And>i. i < length ls \<Longrightarrow> \<not> valid_at ls depth i y x"
  shows "output_at ls bg depth y x c = normalize8 (bg ! y ! x ! c)"
proof -
  have "sum_float32 (map (\<lambda>i. normalize8 (ls ! i ! y ! x ! c) *
      of_bool (valid_at ls depth i y x)) [0..<length ls]) = 0"
    by (rule sum_float32_zeros) (auto simp: assms)
  moreover have "(\<Sum>i\<leftarrow>[0..<length ls]. of_bool (valid_at ls depth i y x) :: nat) = 0"
    using sum_list_indicator_none [of "length ls" "\<lambda>i. valid_at ls depth i y x" "\<lambda>_. 1 :: nat"]
      assms by simp
  ultimately show ?thesis
    by (simp add: output_at_def clip_def)
qed

lemma byte_at_none:
  assumes "\<And>i. i < length ls \<Longrightarrow> \<not> valid_at ls depth i y x"
  shows "byte_at ls bg depth y x c = bg ! y ! x ! c"
proof -
  have "(\<Sum>i\<leftarrow>[0..<length ls]. of_bool (valid_at ls depth i y x) :: nat) = 0"
    using sum_list_indicator_none [of "length ls" "\<lambda>i. valid_at ls depth i y x" "\<lambda>_. 1 :: nat"]
      assms by simp
  then show ?thesis
    unfolding byte_at_def by (simp only: less_irrefl if_False)
qed

lemma byte_at_one:
  assumes "k < length ls" "valid_at ls depth k y x"
    and "\<And>i. i < length ls \<Longrightarrow> i \<noteq> k \<Longrightarrow> \<not> valid_at ls depth i y x"
  shows "byte_at ls bg depth y x c = ls ! k ! y ! x ! c"
proof -
  have "(\<Sum>i\<leftarrow>[0..<length ls]. uint (ls ! i ! y ! x ! c) *
      of_bool (valid_at ls depth i y x)) = uint (ls ! k ! y ! x ! c)"
    using assms
    by (intro sum_list_indicator_one
        [of k "length ls" "\<lambda>i. valid_at ls depth i y x" "\<lambda>i. uint (ls ! i ! y ! x ! c)"])
      auto
  moreover have "(\<Sum>i\<leftarrow>[0..<length ls]. of_bool (valid_at ls depth i y x) :: nat) = 1"
    using sum_list_indicator_one [of k "length ls" "\<lambda>i. valid_at ls depth i y x" "\<lambda>_. 1 :: nat"]
      assms by simp
  ultimately show ?thesis
    using uint_byte(2) [of "ls ! k ! y ! x ! c"] by (simp add: byte_at_def)
qed

lemma astype_uint8_output_at:
  "astype_uint8 (output_at ls bg depth y x c * 255) = byte_at ls bg depth y x c"
proof -
  let ?N = "[0..<length ls]"
  let ?v = "\<lambda>i. valid_at ls depth i y x"
  let ?l = "\<lambda>i. ls ! i ! y ! x ! c"
  let ?count = "(\<Sum>i\<leftarrow>?N. of_bool (?v i) :: nat)"
  have fs: "map (\<lambda>i. normalize8 (?l i) * of_bool (?v i)) ?N
      = map normalize8 (map (\<lambda>i. if ?v i then ?l i else 0) ?N)"
    by (rule nth_equalityI) (simp_all add: normalize8_0)
  have ks: "(\<Sum>b\<leftarrow>map (\<lambda>i. if ?v i then ?l i else 0) ?N. uint b)
      = (\<Sum>i\<leftarrow>?N. uint (?l i) * of_bool (?v i))"
    unfolding map_map by (rule arg_cong [where f = sum_list], rule nth_equalityI) simp_all
  show ?thesis
  proof (cases "0 < ?count")
    case True
    then have "output_at ls bg depth y x c
        = clip (sum_float32 (map normalize8 (map (\<lambda>i. if ?v i then ?l i else 0) ?N))) 0 1"
      unfolding output_at_def fs by simp
    then show ?thesis
      using True by (simp only: sum_float32_byte ks byte_at_def if_True)
  next
    case False
    then have none: "\<not> ?v i" if "i < length ls" for i
      using that by (auto simp: sum_list_eq_0_iff)
    show ?thesis
      by (simp only: output_at_none [OF none] astype_uint8_normalize8 byte_at_none [OF none])
  qed
qed


lemma bodies_well_shaped:
  assumes "well_shaped H W ls depth"
  shows "bodies h (RgbaList ls) (depth_arg depth) =
    Inr (map (\<lambda>i. tab3 H W 3 (\<lambda>y x c. normalize8 (ls ! i ! y ! x ! c) *
                       of_bool (valid_at ls depth i y x))) [0..<length ls])"
proof -
  from assms have ls: "list_all (has_shape3 H W 4) ls" and pos: "0 < H" "0 < W"
    by (auto simp: well_shaped_def)
  note contrib = contributions_shape [OF ls pos well_shaped_fits [OF assms]]
  show ?thesis
    unfolding bodies_def prepare_depth_well_shaped [OF assms] snd_conv bindE_Inr
      expand_dims_def scene_rgba_arg.case contrib
    by (simp add: comp_def)
qed

lemma valid_at_no_alpha:
  assumes "ls ! i ! y ! x ! 3 = 0"
  shows "\<not> valid_at ls depth i y x"
  using assms by (simp add: valid_at_def normalize8_0)

section \<open>Claims about the compositor\<close>

text \<open>
  Claim C6.  A layer whose alpha channel is 0 at every pixel contributes nothing: its
  entry of \<^verbatim>\<open>bodies\<close> is zero everywhere and its entry of \<^verbatim>\<open>valid_masks\<close> is false
  everywhere, with or without depth and whatever the other layers of the batch are.  When
  the batch holds only such layers (in particular when it is that one layer), the call
  returns the background image itself, byte for byte, and leaves the store as it was.
\<close>

theorem no_coverage_reproduces_background:
  assumes "well_shaped H W ls depth" "has_shape3 H W 3 bg"
  shows "(\<forall>i<length ls. (\<forall>y<H. \<forall>x<W. ls ! i ! y ! x ! 3 = 0) \<longrightarrow>
            (\<exists>bs ms. bodies h (RgbaList ls) (depth_arg depth) = Inr bs
               \<and> valid_masks h (RgbaList ls) (depth_arg depth) = Inr ms
               \<and> bs ! i = tab3 H W 3 (\<lambda>y x c. 0)
               \<and> ms ! i = tab3 H W 1 (\<lambda>y x c. False)))
       \<and> ((\<forall>i<length ls. \<forall>y<H. \<forall>x<W. ls ! i ! y ! x ! 3 = 0) \<longrightarrow>
            combine_scene_image h (RgbaList ls) bg (depth_arg depth) = (h, Inr bg))"
proof (intro conjI allI impI)
  fix i
  assume i: "i < length ls" and none: "\<forall>y<H. \<forall>x<W. ls ! i ! y ! x ! 3 = 0"
  have "tab3 H W 3 (\<lambda>y x c. normalize8 (ls ! i ! y ! x ! c) * of_bool (valid_at ls depth i y x))
      = tab3 H W 3 (\<lambda>y x c. 0)"
    by (rule tab3_cong) (simp_all add: valid_at_no_alpha none)
  moreover have "tab3 H W 1 (\<lambda>y x c. valid_at ls depth i y x) = tab3 H W 1 (\<lambda>y x c. False)"
    by (rule tab3_cong) (simp_all add: valid_at_no_alpha none)
  ultimately show "\<exists>bs ms. bodies h (RgbaList ls) (depth_arg depth) = Inr bs
      \<and> valid_masks h (RgbaList ls) (depth_arg depth) = Inr ms
      \<and> bs ! i = tab3 H W 3 (\<lambda>y x c. 0)
      \<and> ms ! i = tab3 H W 1 (\<lambda>y x c. False)"
    using i
    by (simp add: bodies_well_shaped [OF assms(1)] valid_masks_well_shaped [OF assms(1)]
        del: upt_Suc)
next
  assume none: "\<forall>i<length ls. \<forall>y<H. \<forall>x<W. ls ! i ! y ! x ! 3 = 0"
  have "tab3 H W 3 (\<lambda>y x c. astype_uint8 (output_at ls bg depth y x c * 255))
      = tab3 H W 3 (\<lambda>y x c. bg ! y ! x ! c)"
  proof (rule tab3_cong)
    fix y x c :: nat
    assume "y < H" "x < W" "c < 3"
    with none have "\<And>i. i < length ls \<Longrightarrow> \<not> valid_at ls depth i y x"
      by (simp add: valid_at_no_alpha)
    then show "astype_uint8 (output_at ls bg depth y x c * 255) = bg ! y ! x ! c"
      by (simp add: output_at_none astype_uint8_normalize8)
  qed simp_all
  then show "combine_scene_image h (RgbaList ls) bg (depth_arg depth) = (h, Inr bg)"
    by (simp add: combine_scene_image_well_shaped [OF assms] tab3_nth_eq [OF assms(2)])
qed


theorem no_coverage_reproduces_background_witness:
  "well_shaped 1 2 [[[[9, 9, 9, 0], [1, 2, 3, 0]]]] (Some [[[Fin 0, Fin 0]]])
   \<and> combine_scene_image (\<lambda>_. Depth2 []) (RgbaList [[[[9, 9, 9, 0], [1, 2, 3, 0]]]])
         [[[5, 6, 7], [8, 9, 10]]] (DepthList [[[Fin 0, Fin 0]]])
       = (\<lambda>_. Depth2 [], Inr [[[5, 6, 7], [8, 9, 10]]])"
  using no_coverage_reproduces_background
    [of 1 2 "[[[[9, 9, 9, 0], [1, 2, 3, 0]]]]" "Some [[[Fin 0, Fin 0]]]"
        "[[[5, 6, 7], [8, 9, 10]]]" "\<lambda>_. Depth2 []"]
  by (simp add: well_shaped_def has_shape3_def has_shape2_def depth_arg_def less_Suc_eq
      numeral_2_eq_2)

text \<open>
  Claim C9.  When \<^verbatim>\<open>scene_depth\<close> is a numpy array, line 142 writes through a view
  into the caller's array: after the call, whatever it returned or raised, the array at
  the caller's address holds \<open>PInf\<close> wherever it held 0 and is unchanged elsewhere, and
  no other array of the store has changed.  When the argument is a Python list or
  \<^verbatim>\<open>None\<close> the store is left as it was (the write goes into the copy that
  \<^verbatim>\<open>np.asarray\<close> made).
\<close>

theorem combine_scene_image_writes_depth_array:
  "fst (combine_scene_image h scene_rgba original_image (DepthArray a))
     = h(a := map_depth_array place_at_infinity (h a))
   \<and> place_at_infinity v = (if v = Fin 0 then PInf else v)
   \<and> fst (combine_scene_image h scene_rgba original_image (DepthList ds)) = h
   \<and> fst (combine_scene_image h scene_rgba original_image DepthNone) = h"
  by (simp add: combine_scene_image_def prepare_depth_def Let_def place_at_infinity_eq)

theorem combine_scene_image_writes_depth_array_witness:
  "fst (combine_scene_image (\<lambda>_. Depth2 [[Fin 0, Fin 3], [Fin 2, Fin 0]])
          (RgbaArray [[[1, 2, 3, 255], [0, 0, 0, 0]], [[4, 5, 6, 255], [0, 0, 0, 0]]])
          [[[9, 9, 9], [8, 8, 8]], [[7, 7, 7], [6, 6, 6]]] (DepthArray 5)) 5
     = Depth2 [[PInf, Fin 3], [Fin 2, PInf]]"
  using combine_scene_image_writes_depth_array
    [of "\<lambda>_. Depth2 [[Fin 0, Fin 3], [Fin 2, Fin 0]]"
        "RgbaArray [[[1, 2, 3, 255], [0, 0, 0, 0]], [[4, 5, 6, 255], [0, 0, 0, 0]]]"
        "[[[9, 9, 9], [8, 8, 8]], [[7, 7, 7], [6, 6, 6]]]" 5]
  by (simp add: place_at_infinity_eq)

lemma nth_tab3_px: "y < H \<Longrightarrow> x < W \<Longrightarrow> tab3 H W C g ! y ! x = map (g y x) [0..<C]"
  by (simp add: tab3_def)

lemma min_depth_at_not_PInf:
  assumes "p < length ds" "place_at_infinity (ds ! p ! y ! x) \<noteq> PInf"
  shows "min_depth_at ds y x \<noteq> PInf"
proof -
  from assms(1) obtain d0 dr where ds: "ds = d0 # dr"
    by (cases ds) auto
  have "ds ! p \<in> set (d0 # dr)"
    using assms(1) ds nth_mem by metis
  then have "place_at_infinity (ds ! p ! y ! x)
      \<in> insert (place_at_infinity (d0 ! y ! x)) (set (map (\<lambda>d. place_at_infinity (d ! y ! x)) dr))"
    by auto
  with assms(2) show ?thesis
    unfolding min_depth_at_def ds list.sel fold_fmin_PInf_iff by auto
qed

text \<open>
  Claim C4.  In depth mode a depth of 0 is replaced by \<open>PInf\<close> in every layer before
  the minimum along axis 0 is taken.  At a pixel where layer \<open>s\<close> has depth 0 and
  another layer \<open>p\<close> has a positive finite depth, the entry of \<^verbatim>\<open>scene_depth\<close> for
  \<open>s\<close> is \<open>PInf\<close>, the entry of \<^verbatim>\<open>min_depth\<close> is not, and the \<^verbatim>\<open>valid_mask\<close> of
  \<open>s\<close> is false there: \<open>s\<close> is not selected, whatever its alpha and whatever the other
  layers are.
\<close>

theorem sentinel_layer_never_selected:
  assumes "well_shaped H W ls (Some ds)" "y < H" "x < W"
    and "s < length ls" "p < length ls"
    and "ds ! s ! y ! x = Fin 0" "ds ! p ! y ! x = Fin d" "0 < d"
  shows "\<exists>scene_depth min_depth ms.
           snd (prepare_depth h (DepthList ds)) = Inr (Some (scene_depth, min_depth))
         \<and> scene_depth ! s ! y ! x ! 0 = PInf
         \<and> scene_depth ! p ! y ! x ! 0 = Fin d
         \<and> min_depth ! y ! x ! 0 \<noteq> PInf
         \<and> valid_masks h (RgbaList ls) (DepthList ds) = Inr ms
         \<and> \<not> ms ! s ! y ! x ! 0"
proof -
  from assms have len: "s < length ds" "p < length ds"
    by (auto simp: well_shaped_def)
  have ps: "place_at_infinity (ds ! s ! y ! x) = PInf"
    and pp: "place_at_infinity (ds ! p ! y ! x) = Fin d"
    using assms by (simp_all add: place_at_infinity_eq)
  have m: "min_depth_at ds y x \<noteq> PInf"
    by (rule min_depth_at_not_PInf [OF len(2)]) (simp add: pp)
  then have "\<not> valid_at ls (Some ds) s y x"
    by (auto simp: valid_at_def ps feq_def)
  moreover note prepare_depth_well_shaped [OF assms(1), of h]
    valid_masks_well_shaped [OF assms(1), of h]
  ultimately show ?thesis
    using assms(2-5) len ps pp m
    by (simp add: depth_arg_def prepared_def del: upt_Suc)
qed

theorem sentinel_layer_never_selected_witness:
  "well_shaped 1 1 [[[[10, 20, 30, 255]]], [[[40, 50, 60, 255]]]] (Some [[[Fin 0]], [[Fin 3]]])
   \<and> snd (prepare_depth (\<lambda>_. Depth2 []) (DepthList [[[Fin 0]], [[Fin 3]]]))
     = Inr (Some ([[[[PInf]]], [[[Fin 3]]]], [[[Fin 3]]]))
   \<and> valid_masks (\<lambda>_. Depth2 []) (RgbaList [[[[10, 20, 30, 255]]], [[[40, 50, 60, 255]]]])
       (DepthList [[[Fin 0]], [[Fin 3]]]) = Inr [[[[False]]], [[[True]]]]"
proof -
  have e: "snd (prepare_depth (\<lambda>_. Depth2 []) (DepthList [[[Fin 0]], [[Fin 3]]]))
     = Inr (Some ([[[[PInf]]], [[[Fin 3]]]], [[[Fin 3]]]))"
    "valid_masks (\<lambda>_. Depth2 []) (RgbaList [[[[10, 20, 30, 255]]], [[[40, 50, 60, 255]]]])
       (DepthList [[[Fin 0]], [[Fin 3]]]) = Inr [[[[False]]], [[[True]]]]"
    by code_simp+
  show ?thesis
    using sentinel_layer_never_selected
      [of 1 1 "[[[[10, 20, 30, 255]]], [[[40, 50, 60, 255]]]]" "[[[Fin 0]], [[Fin 3]]]"
          0 0 0 1 3 "\<lambda>_. Depth2 []"] e
    by (simp add: well_shaped_def has_shape3_def has_shape2_def)
qed

lemma px_length:
  assumes "has_shape3 H W C a" "y < H" "x < W"
  shows "length (a ! y ! x) = C"
  using assms by (simp add: has_shape3_lengths)

lemma result_pixel_is_layer:
  assumes ws: "well_shaped H W ls depth" and bg: "has_shape3 H W 3 bg" and yx: "y < H" "x < W"
    and k: "k < length ls" "valid_at ls depth k y x"
    and others: "\<And>i. i < length ls \<Longrightarrow> i \<noteq> k \<Longrightarrow> \<not> valid_at ls depth i y x"
  shows "tab3 H W 3 (\<lambda>y x c. astype_uint8 (output_at ls bg depth y x c * 255)) ! y ! x
    = butlast (ls ! k ! y ! x)"
proof -
  from ws k(1) have "has_shape3 H W 4 (ls ! k)"
    by (simp add: well_shaped_def list_all_length)
  then have len: "length (ls ! k ! y ! x) = 4"
    using yx by (rule px_length)
  show ?thesis
    by (rule nth_equalityI)
      (simp_all add: yx len nth_butlast astype_uint8_output_at byte_at_one [OF k others])
qed

lemma result_pixel_is_background:
  assumes bg: "has_shape3 H W 3 bg" and yx: "y < H" "x < W"
    and none: "\<And>i. i < length ls \<Longrightarrow> \<not> valid_at ls depth i y x"
  shows "tab3 H W 3 (\<lambda>y x c. astype_uint8 (output_at ls bg depth y x c * 255)) ! y ! x
    = bg ! y ! x"
proof -
  have len: "length (bg ! y ! x) = 3"
    using bg yx by (rule px_length)
  show ?thesis
    by (rule nth_equalityI)
      (simp_all add: yx len output_at_none [OF none] astype_uint8_normalize8)
qed

lemma min_depth_at_two:
  "min_depth_at [d0, d1] y x = fmin (place_at_infinity (d1 ! y ! x)) (place_at_infinity (d0 ! y ! x))"
  by (simp add: min_depth_at_def)

lemma front_of_two:
  assumes "flt a b"
  shows "fmin b a = a" "fmin a b = a" "feq a a" "\<not> feq b a"
  using assms by (cases a; cases b; simp add: fmin_def feq_def)+

text \<open>
  Claim C3, as amended.  In depth mode with the two layers \<open>A\<close> and \<open>B\<close> and their depth
  rasters given as lists, at a pixel that both layers cover (alpha not 0), where the depth
  of \<open>A\<close> is not the sentinel 0 and is strictly smaller than the depth of \<open>B\<close>, the
  pixel of the returned image is the colour of \<open>A\<close> (its channels without alpha), in
  either order of the batch.  The claim as stated also covers a depth of exactly 0 for
  \<open>A\<close>: there line 142 moves \<open>A\<close> to infinity and \<open>B\<close> is shown, which the
  counterexample after the witness evaluates.
\<close>

theorem nearer_layer_wins:
  assumes "well_shaped H W [A, B] (Some [dA, dB])" "has_shape3 H W 3 bg" "y < H" "x < W"
    and "A ! y ! x ! 3 \<noteq> 0" "B ! y ! x ! 3 \<noteq> 0"
    and "flt (dA ! y ! x) (dB ! y ! x)" "dA ! y ! x \<noteq> Fin 0"
  shows "(\<exists>img. snd (combine_scene_image h (RgbaList [A, B]) bg (DepthList [dA, dB])) = Inr img
            \<and> img ! y ! x = butlast (A ! y ! x))
       \<and> (\<exists>img. snd (combine_scene_image h (RgbaList [B, A]) bg (DepthList [dB, dA])) = Inr img
            \<and> img ! y ! x = butlast (A ! y ! x))"
proof -
  let ?a = "place_at_infinity (dA ! y ! x)" and ?b = "place_at_infinity (dB ! y ! x)"
  have lt: "flt ?a ?b"
    using assms(7,8) by (rule flt_place_at_infinity)
  note f = front_of_two [OF lt]
  have ws': "well_shaped H W [B, A] (Some [dB, dA])"
    using assms(1) by (auto simp: well_shaped_def)
  have A1: "valid_at [A, B] (Some [dA, dB]) 0 y x"
    and B1: "\<not> valid_at [A, B] (Some [dA, dB]) (Suc 0) y x"
    and A2: "valid_at [B, A] (Some [dB, dA]) (Suc 0) y x"
    and B2: "\<not> valid_at [B, A] (Some [dB, dA]) 0 y x"
    using assms(5,6) by (simp_all add: valid_at_def min_depth_at_two f normalize8_pos)
  have "tab3 H W 3 (\<lambda>y x c. astype_uint8 (output_at [A, B] bg (Some [dA, dB]) y x c * 255)) ! y ! x
      = butlast ([A, B] ! 0 ! y ! x)"
    by (rule result_pixel_is_layer [OF assms(1-4)]) (auto simp: A1 B1 less_Suc_eq)
  then have first: "\<exists>img. snd (combine_scene_image h (RgbaList [A, B]) bg (DepthList [dA, dB]))
      = Inr img \<and> img ! y ! x = butlast (A ! y ! x)"
    using combine_scene_image_well_shaped [OF assms(1,2), of h] by (simp add: depth_arg_def)
  have "tab3 H W 3 (\<lambda>y x c. astype_uint8 (output_at [B, A] bg (Some [dB, dA]) y x c * 255)) ! y ! x
      = butlast ([B, A] ! Suc 0 ! y ! x)"
    by (rule result_pixel_is_layer [OF ws' assms(2-4)]) (auto simp: A2 B2 less_Suc_eq)
  then have "\<exists>img. snd (combine_scene_image h (RgbaList [B, A]) bg (DepthList [dB, dA]))
      = Inr img \<and> img ! y ! x = butlast (A ! y ! x)"
    using combine_scene_image_well_shaped [OF ws' assms(2), of h] by (simp add: depth_arg_def)
  with first show ?thesis ..
qed

theorem nearer_layer_wins_witness:
  "well_shaped 1 1 [[[[200, 10, 20, 255]]], [[[30, 40, 250, 255]]]] (Some [[[Fin 1]], [[Fin 2]]])
   \<and> flt (Fin 1) (Fin 2)
   \<and> snd (combine_scene_image (\<lambda>_. Depth2 []) (RgbaList [[[[200, 10, 20, 255]]], [[[30, 40, 250, 255]]]])
        [[[7, 8, 9]]] (DepthList [[[Fin 1]], [[Fin 2]]])) = Inr [[[200, 10, 20]]]
   \<and> snd (combine_scene_image (\<lambda>_. Depth2 []) (RgbaList [[[[30, 40, 250, 255]]], [[[200, 10, 20, 255]]]])
        [[[7, 8, 9]]] (DepthList [[[Fin 2]], [[Fin 1]]])) = Inr [[[200, 10, 20]]]"
proof -
  have e: "snd (combine_scene_image (\<lambda>_. Depth2 []) (RgbaList [[[[200, 10, 20, 255]]], [[[30, 40, 250, 255]]]])
        [[[7, 8, 9]]] (DepthList [[[Fin 1]], [[Fin 2]]])) = Inr [[[200, 10, 20]]]"
    "snd (combine_scene_image (\<lambda>_. Depth2 []) (RgbaList [[[[30, 40, 250, 255]]], [[[200, 10, 20, 255]]]])
        [[[7, 8, 9]]] (DepthList [[[Fin 2]], [[Fin 1]]])) = Inr [[[200, 10, 20]]]"
    by code_simp+
  show ?thesis
    using nearer_layer_wins
      [of 1 1 "[[[200, 10, 20, 255]]]" "[[[30, 40, 250, 255]]]" "[[Fin 1]]" "[[Fin 2]]"
          "[[[7, 8, 9]]]" 0 0 "\<lambda>_. Depth2 []"] e
    by (simp add: well_shaped_def has_shape3_def has_shape2_def)
qed

theorem sentinel_depth_smaller_counterexample:
  "flt (Fin 0) (Fin 2)
   \<and> snd (combine_scene_image (\<lambda>_. Depth2 []) (RgbaList [[[[200, 10, 20, 255]]], [[[30, 40, 250, 255]]]])
        [[[7, 8, 9]]] (DepthList [[[Fin 0]], [[Fin 2]]])) = Inr [[[30, 40, 250]]]"
  by code_simp

text \<open>
  Claim C5.  With depth disabled and a batch of two layers, at a pixel where the first
  layer is (255, 0, 0) and the second (0, 255, 0), both with alpha 255, that is
  (1.0, 0, 0) and (0, 1.0, 0) after normalisation, the float image \<^verbatim>\<open>output_image\<close>
  holds (1, 1, 0) at that pixel, no channel above 1, and the returned image holds
  (255, 255, 0).
\<close>

theorem overlap_without_depth_is_clipped_sum:
  assumes "well_shaped H W [A, B] None" "has_shape3 H W 3 bg" "y < H" "x < W"
    and "A ! y ! x = [255, 0, 0, 255]" "B ! y ! x = [0, 255, 0, 255]"
  shows "\<exists>out img. output_image [A, B] bg None = Inr out
           \<and> out ! y ! x = [1, 1, 0]
           \<and> list_all (\<lambda>v. v \<le> 1) (out ! y ! x)
           \<and> combine_scene_image h (RgbaList [A, B]) bg DepthNone = (h, Inr img)
           \<and> img ! y ! x = [255, 255, 0]"
proof -
  from assms(1) have ls: "list_all (has_shape3 H W 4) [A, B]" "[A, B] \<noteq> []"
    and pos: "0 < H" "0 < W"
    by (auto simp: well_shaped_def)
  have out: "output_image [A, B] bg None = Inr (tab3 H W 3 (output_at [A, B] bg None))"
    using output_image_shape [OF ls pos assms(2) well_shaped_fits [OF assms(1)]]
    by (simp add: prepared_def)
  have img: "combine_scene_image h (RgbaList [A, B]) bg DepthNone
      = (h, Inr (tab3 H W 3 (\<lambda>y x c. astype_uint8 (output_at [A, B] bg None y x c * 255))))"
    using combine_scene_image_well_shaped [OF assms(1,2), of h] by (simp add: depth_arg_def)
  have v: "valid_at [A, B] None 0 y x" "valid_at [A, B] None (Suc 0) y x"
    using assms(5,6) by (simp_all add: valid_at_def normalize8_255)
  have px: "output_at [A, B] bg None y x 0 = 1" "output_at [A, B] bg None y x (Suc 0) = 1"
    "output_at [A, B] bg None y x 2 = 0"
    using assms(5,6) v
    by (simp_all add: output_at_def clip_def normalize8_255 normalize8_0 sum_float32_def
        add_float32_def round_float_0 round_float_1)
  have three: "[0..<3] = [0, Suc 0, 2]"
    by (simp add: upt_rec)
  have "tab3 H W 3 (output_at [A, B] bg None) ! y ! x = [1, 1, 0]"
    using assms(3,4) by (simp add: nth_tab3_px three px)
  moreover have "tab3 H W 3 (\<lambda>y x c. astype_uint8 (output_at [A, B] bg None y x c * 255)) ! y ! x
      = [255, 255, 0]"
    using assms(3,4) by (simp add: nth_tab3_px three px astype_uint8_def)
  ultimately show ?thesis
    by (simp add: out img)
qed

theorem overlap_without_depth_is_clipped_sum_witness:
  "well_shaped 1 1 [[[[255, 0, 0, 255]]], [[[0, 255, 0, 255]]]] None
   \<and> output_image [[[[255, 0, 0, 255]]], [[[0, 255, 0, 255]]]] [[[7, 8, 9]]] None = Inr [[[1, 1, 0]]]
   \<and> combine_scene_image (\<lambda>_. Depth2 []) (RgbaList [[[[255, 0, 0, 255]]], [[[0, 255, 0, 255]]]])
        [[[7, 8, 9]]] DepthNone = (\<lambda>_. Depth2 [], Inr [[[255, 255, 0]]])"
proof -
  have e: "output_image [[[[255, 0, 0, 255]]], [[[0, 255, 0, 255]]]] [[[7, 8, 9]]] None
      = Inr [[[1, 1, 0]]]"
    by code_simp
  have s: "snd (combine_scene_image (\<lambda>_. Depth2 []) (RgbaList [[[[255, 0, 0, 255]]], [[[0, 255, 0, 255]]]])
        [[[7, 8, 9]]] DepthNone) = Inr [[[255, 255, 0]]]"
    by code_simp
  show ?thesis
    using overlap_without_depth_is_clipped_sum
      [of 1 1 "[[[255, 0, 0, 255]]]" "[[[0, 255, 0, 255]]]" "[[[7, 8, 9]]]" 0 0 "\<lambda>_. Depth2 []"]
      e s
    by (auto simp: well_shaped_def has_shape3_def has_shape2_def)
qed

text \<open>
  Claim C2, as amended.  On a batch of one size the call returns an image with every pixel
  defined (height by width by 3).  At a pixel where no layer is selected (no
  \<^verbatim>\<open>valid_mask\<close> is true) the pixel is the background's; at a pixel where exactly one
  layer is selected it is that layer's colour.  Without depth a layer is selected where
  its alpha is not 0; with depth at most one layer is selected at any pixel where no two
  covering layers have the same depth after line 142.  Pixels where several layers are
  selected are left out of the statement: there the code adds the colours and clips, as
  the counterexample after the witness evaluates for two covering layers without depth
  and for two layers of equal depth.
\<close>

theorem pixel_with_one_selected_layer_has_one_source:
  assumes "well_shaped H W ls depth" "has_shape3 H W 3 bg" "y < H" "x < W"
  shows "\<exists>img ms.
           combine_scene_image h (RgbaList ls) bg (depth_arg depth) = (h, Inr img)
         \<and> valid_masks h (RgbaList ls) (depth_arg depth) = Inr ms
         \<and> has_shape3 H W 3 img
         \<and> ((\<forall>i<length ls. \<not> ms ! i ! y ! x ! 0) \<longrightarrow> img ! y ! x = bg ! y ! x)
         \<and> (\<forall>k<length ls. ms ! k ! y ! x ! 0 \<and> (\<forall>i<length ls. i \<noteq> k \<longrightarrow> \<not> ms ! i ! y ! x ! 0)
               \<longrightarrow> img ! y ! x = butlast (ls ! k ! y ! x))
         \<and> (depth = None \<longrightarrow> (\<forall>i<length ls. ms ! i ! y ! x ! 0 = (ls ! i ! y ! x ! 3 \<noteq> 0)))
         \<and> (\<forall>ds. depth = Some ds
               \<and> (\<forall>i<length ls. \<forall>j<length ls.
                     i \<noteq> j \<and> ls ! i ! y ! x ! 3 \<noteq> 0 \<and> ls ! j ! y ! x ! 3 \<noteq> 0
                     \<longrightarrow> place_at_infinity (ds ! i ! y ! x) \<noteq> place_at_infinity (ds ! j ! y ! x))
               \<longrightarrow> (\<forall>i<length ls. \<forall>j<length ls.
                     ms ! i ! y ! x ! 0 \<and> ms ! j ! y ! x ! 0 \<longrightarrow> i = j))"
proof -
  let ?img = "tab3 H W 3 (\<lambda>y x c. astype_uint8 (output_at ls bg depth y x c * 255))"
  let ?ms = "map (\<lambda>i. tab3 H W 1 (\<lambda>y x c. valid_at ls depth i y x)) [0..<length ls]"
  have sel: "?ms ! i ! y ! x ! 0 = valid_at ls depth i y x" if "i < length ls" for i
    using that assms(3,4) by simp
  have none: "?img ! y ! x = bg ! y ! x" if "\<forall>i<length ls. \<not> ?ms ! i ! y ! x ! 0"
    using that assms(3,4) by (intro result_pixel_is_background [OF assms(2-4)]) simp
  have one: "?img ! y ! x = butlast (ls ! k ! y ! x)"
    if "k < length ls" "?ms ! k ! y ! x ! 0" "\<forall>i<length ls. i \<noteq> k \<longrightarrow> \<not> ?ms ! i ! y ! x ! 0" for k
    using that assms(3,4) by (intro result_pixel_is_layer [OF assms(1-4)]) simp_all
  have nodepth: "?ms ! i ! y ! x ! 0 = (ls ! i ! y ! x ! 3 \<noteq> 0)"
    if "depth = None" "i < length ls" for i
    using that assms(3,4) by (simp add: valid_at_def normalize8_pos)
  have unique: "i = j"
    if d: "depth = Some ds"
      and distinct: "\<forall>i<length ls. \<forall>j<length ls.
        i \<noteq> j \<and> ls ! i ! y ! x ! 3 \<noteq> 0 \<and> ls ! j ! y ! x ! 3 \<noteq> 0
        \<longrightarrow> place_at_infinity (ds ! i ! y ! x) \<noteq> place_at_infinity (ds ! j ! y ! x)"
      and ij: "i < length ls" "j < length ls" "?ms ! i ! y ! x ! 0" "?ms ! j ! y ! x ! 0"
    for ds i j
  proof (rule ccontr)
    assume "i \<noteq> j"
    from ij d have "ls ! i ! y ! x ! 3 \<noteq> 0" "ls ! j ! y ! x ! 3 \<noteq> 0"
      and "place_at_infinity (ds ! i ! y ! x) = place_at_infinity (ds ! j ! y ! x)"
      using assms(3,4) by (auto simp: valid_at_def normalize8_pos feq_def)
    with distinct ij(1,2) \<open>i \<noteq> j\<close> show False
      by blast
  qed
  show ?thesis
    apply (rule exI [of _ ?img])
    apply (rule exI [of _ ?ms])
    apply (intro conjI)
          apply (rule combine_scene_image_well_shaped [OF assms(1,2)])
         apply (rule valid_masks_well_shaped [OF assms(1)])
        apply (rule has_shape3_tab3)
    using none apply blast
    using one apply blast
    using nodepth apply blast
    using unique apply blast
    done
qed

theorem pixel_with_one_selected_layer_has_one_source_witness:
  "well_shaped 1 2 [[[[200, 10, 20, 255], [1, 1, 1, 0]]], [[[30, 40, 250, 255], [2, 2, 2, 0]]]]
       (Some [[[Fin 1, Fin 0]], [[Fin 2, Fin 0]]])
   \<and> combine_scene_image (\<lambda>_. Depth2 [])
         (RgbaList [[[[200, 10, 20, 255], [1, 1, 1, 0]]], [[[30, 40, 250, 255], [2, 2, 2, 0]]]])
         [[[7, 8, 9], [4, 5, 6]]] (DepthList [[[Fin 1, Fin 0]], [[Fin 2, Fin 0]]])
       = (\<lambda>_. Depth2 [], Inr [[[200, 10, 20], [4, 5, 6]]])
   \<and> valid_masks (\<lambda>_. Depth2 [])
         (RgbaList [[[[200, 10, 20, 255], [1, 1, 1, 0]]], [[[30, 40, 250, 255], [2, 2, 2, 0]]]])
         (DepthList [[[Fin 1, Fin 0]], [[Fin 2, Fin 0]]])
       = Inr [[[[True], [False]]], [[[False], [False]]]]"
proof -
  have e: "snd (combine_scene_image (\<lambda>_. Depth2 [])
         (RgbaList [[[[200, 10, 20, 255], [1, 1, 1, 0]]], [[[30, 40, 250, 255], [2, 2, 2, 0]]]])
         [[[7, 8, 9], [4, 5, 6]]] (DepthList [[[Fin 1, Fin 0]], [[Fin 2, Fin 0]]]))
       = Inr [[[200, 10, 20], [4, 5, 6]]]"
    "valid_masks (\<lambda>_. Depth2 [])
         (RgbaList [[[[200, 10, 20, 255], [1, 1, 1, 0]]], [[[30, 40, 250, 255], [2, 2, 2, 0]]]])
         (DepthList [[[Fin 1, Fin 0]], [[Fin 2, Fin 0]]])
       = Inr [[[[True], [False]]], [[[False], [False]]]]"
    by code_simp+
  show ?thesis
    using pixel_with_one_selected_layer_has_one_source
      [of 1 2 "[[[[200, 10, 20, 255], [1, 1, 1, 0]]], [[[30, 40, 250, 255], [2, 2, 2, 0]]]]"
          "Some [[[Fin 1, Fin 0]], [[Fin 2, Fin 0]]]" "[[[7, 8, 9], [4, 5, 6]]]" 0 0
          "\<lambda>_. Depth2 []"] e
    by (auto simp: well_shaped_def has_shape3_def has_shape2_def depth_arg_def)
qed

theorem several_selected_layers_blend_counterexample:
  "snd (combine_scene_image (\<lambda>_. Depth2 [])
          (RgbaList [[[[100, 0, 0, 255]]], [[[0, 100, 0, 255]]]])
          [[[7, 8, 9]]] DepthNone) = Inr [[[100, 100, 0]]]
   \<and> snd (combine_scene_image (\<lambda>_. Depth2 [])
          (RgbaList [[[[100, 0, 0, 255]]], [[[0, 100, 0, 255]]]])
          [[[7, 8, 9]]] (DepthList [[[Fin 1]], [[Fin 1]]])) = Inr [[[100, 100, 0]]]
   \<and> valid_masks (\<lambda>_. Depth2 []) (RgbaList [[[[100, 0, 0, 255]]], [[[0, 100, 0, 255]]]])
          (DepthList [[[Fin 1]], [[Fin 1]]]) = Inr [[[[True]]], [[[True]]]]"
  by code_simp

lemma sum_list_nth_upt: "(\<Sum>i\<leftarrow>[0..<length xs]. f (xs ! i)) = (\<Sum>v\<leftarrow>xs. f v)"
proof -
  have "map (\<lambda>i. f (xs ! i)) [0..<length xs] = map f xs"
    by (rule nth_equalityI) simp_all
  then show ?thesis
    by simp
qed

lemma sum_list_map_mset:
  fixes f :: "'a \<Rightarrow> 'b::comm_monoid_add"
  assumes "mset xs = mset ys"
  shows "(\<Sum>v\<leftarrow>xs. f v) = (\<Sum>v\<leftarrow>ys. f v)"
proof -
  have "mset (map f xs) = mset (map f ys)"
    by (simp add: assms)
  then show ?thesis
    by (metis sum_mset_sum_list)
qed

lemma min_depth_at_pairs:
  assumes "ps \<noteq> []"
  shows "min_depth_at (map snd ps) y x
    = fold fmin (map (\<lambda>p. place_at_infinity (snd p ! y ! x)) ps) PInf"
proof -
  from assms obtain p pr where ps: "ps = p # pr"
    by (cases ps) auto
  show ?thesis
    by (simp add: ps min_depth_at_def fmin_PInf_right comp_def)
qed

lemma byte_at_pairs:
  fixes ps :: "(u8 arr3 \<times> fval list list) list"
  defines "ls \<equiv> map fst ps"
  assumes "case depth of None \<Rightarrow> m = None
    | Some ds \<Rightarrow> ds = map snd ps \<and> m = Some (min_depth_at (map snd ps) y x)"
  shows "byte_at ls bg depth y x c =
    (if 0 < (\<Sum>p\<leftarrow>ps. of_bool (selected_pair m y x p) :: nat)
     then word_of_int (min 255 (\<Sum>p\<leftarrow>ps. uint (fst p ! y ! x ! c) * of_bool (selected_pair m y x p)))
     else bg ! y ! x ! c)"
proof -
  have v: "valid_at ls depth i y x = selected_pair m y x (ps ! i)" if "i < length ps" for i
    using that assms(2) by (auto simp: valid_at_def selected_pair_def ls_def split: option.splits)
  have "(\<Sum>i\<leftarrow>[0..<length ls]. uint (ls ! i ! y ! x ! c) * of_bool (valid_at ls depth i y x))
      = (\<Sum>i\<leftarrow>[0..<length ps]. uint (fst (ps ! i) ! y ! x ! c) *
           of_bool (selected_pair m y x (ps ! i)))"
    by (intro arg_cong [where f = sum_list] map_cong) (simp_all add: v, simp_all add: ls_def)
  also have "\<dots> = (\<Sum>p\<leftarrow>ps. uint (fst p ! y ! x ! c) * of_bool (selected_pair m y x p))"
    by (rule sum_list_nth_upt [where f = "\<lambda>p. uint (fst p ! y ! x ! c) *
        of_bool (selected_pair m y x p)"])
  finally have total: "(\<Sum>i\<leftarrow>[0..<length ls]. uint (ls ! i ! y ! x ! c) *
        of_bool (valid_at ls depth i y x))
      = (\<Sum>p\<leftarrow>ps. uint (fst p ! y ! x ! c) * of_bool (selected_pair m y x p))" .
  have "(\<Sum>i\<leftarrow>[0..<length ls]. of_bool (valid_at ls depth i y x) :: nat)
      = (\<Sum>i\<leftarrow>[0..<length ps]. of_bool (selected_pair m y x (ps ! i)))"
    by (intro arg_cong [where f = sum_list] map_cong) (simp_all add: v, simp_all add: ls_def)
  also have "\<dots> = (\<Sum>p\<leftarrow>ps. of_bool (selected_pair m y x p))"
    by (rule sum_list_nth_upt [where f = "\<lambda>p. of_bool (selected_pair m y x p)"])
  finally show ?thesis
    by (simp only: byte_at_def total)
qed

lemma byte_at_permuted:
  fixes ps ps' :: "(u8 arr3 \<times> fval list list) list"
  assumes perm: "mset ps' = mset ps" and ne: "ps \<noteq> []"
  shows "byte_at (map fst ps') bg (Some (map snd ps')) y x c
       = byte_at (map fst ps) bg (Some (map snd ps)) y x c"
    and "byte_at (map fst ps') bg None y x c = byte_at (map fst ps) bg None y x c"
proof -
  from perm ne have ne': "ps' \<noteq> []"
    by auto
  have "mset (map (\<lambda>p. place_at_infinity (snd p ! y ! x)) ps')
      = mset (map (\<lambda>p. place_at_infinity (snd p ! y ! x)) ps)"
    by (simp add: perm)
  then have m: "min_depth_at (map snd ps') y x = min_depth_at (map snd ps) y x"
    unfolding min_depth_at_pairs [OF ne] min_depth_at_pairs [OF ne'] by (rule fold_fmin_mset)
  let ?m = "Some (min_depth_at (map snd ps) y x)"
  have "byte_at (map fst ps') bg (Some (map snd ps')) y x c =
      (if 0 < (\<Sum>p\<leftarrow>ps'. of_bool (selected_pair ?m y x p) :: nat)
       then word_of_int (min 255 (\<Sum>p\<leftarrow>ps'. uint (fst p ! y ! x ! c) * of_bool (selected_pair ?m y x p)))
       else bg ! y ! x ! c)"
    by (rule byte_at_pairs) (simp add: m)
  also have "\<dots> =
      (if 0 < (\<Sum>p\<leftarrow>ps. of_bool (selected_pair ?m y x p) :: nat)
       then word_of_int (min 255 (\<Sum>p\<leftarrow>ps. uint (fst p ! y ! x ! c) * of_bool (selected_pair ?m y x p)))
       else bg ! y ! x ! c)"
    by (simp only: sum_list_map_mset [OF perm])
  also have "\<dots> = byte_at (map fst ps) bg (Some (map snd ps)) y x c"
    by (rule byte_at_pairs [symmetric]) simp
  finally show "byte_at (map fst ps') bg (Some (map snd ps')) y x c
       = byte_at (map fst ps) bg (Some (map snd ps)) y x c" .
  have "byte_at (map fst ps') bg None y x c =
      (if 0 < (\<Sum>p\<leftarrow>ps'. of_bool (selected_pair None y x p) :: nat)
       then word_of_int (min 255 (\<Sum>p\<leftarrow>ps'. uint (fst p ! y ! x ! c) * of_bool (selected_pair None y x p)))
       else bg ! y ! x ! c)"
    by (rule byte_at_pairs) simp
  also have "\<dots> =
      (if 0 < (\<Sum>p\<leftarrow>ps. of_bool (selected_pair None y x p) :: nat)
       then word_of_int (min 255 (\<Sum>p\<leftarrow>ps. uint (fst p ! y ! x ! c) * of_bool (selected_pair None y x p)))
       else bg ! y ! x ! c)"
    by (simp only: sum_list_map_mset [OF perm])
  also have "\<dots> = byte_at (map fst ps) bg None y x c"
    by (rule byte_at_pairs [symmetric]) simp
  finally show "byte_at (map fst ps') bg None y x c = byte_at (map fst ps) bg None y x c" .
qed

lemma well_shaped_permuted:
  assumes perm: "mset ps' = mset ps"
    and ws: "well_shaped H W (map fst ps) (Some (map snd ps))"
  shows "well_shaped H W (map fst ps') (Some (map snd ps'))"
    and "well_shaped H W (map fst ps') None" and "well_shaped H W (map fst ps) None"
    and "ps \<noteq> []"
proof -
  from perm have "set ps' = set ps" "length ps' = length ps"
    by (metis mset_eq_setD, metis size_mset)
  with ws show "well_shaped H W (map fst ps') (Some (map snd ps'))"
    and "well_shaped H W (map fst ps') None" and "well_shaped H W (map fst ps) None"
    and "ps \<noteq> []"
    by (auto simp: well_shaped_def list_all_iff)
qed

text \<open>
  Claim C7.  For a batch of (layer, depth raster) pairs of one size and any permutation of
  it, the call on the permuted batch returns what the call on the batch returns, with the
  depth rasters (permuted the same way) and without depth.  The minimum along axis 0 does
  not depend on the order of the items.  The rounded \<^verbatim>\<open>float32\<close> sum along axis 0 may,
  but the byte it ends in does not: it is the sum of the selected layers' bytes, at most
  255, in whatever order the additions are made.
\<close>

theorem batch_order_is_irrelevant:
  assumes "mset ps' = mset ps"
    and "well_shaped H W (map fst ps) (Some (map snd ps))" "has_shape3 H W 3 bg"
  shows "combine_scene_image h (RgbaList (map fst ps')) bg (DepthList (map snd ps'))
       = combine_scene_image h (RgbaList (map fst ps)) bg (DepthList (map snd ps))
       \<and> combine_scene_image h (RgbaList (map fst ps')) bg DepthNone
       = combine_scene_image h (RgbaList (map fst ps)) bg DepthNone"
proof -
  note ws = well_shaped_permuted [OF assms(1,2)]
  note o = byte_at_permuted [OF assms(1) ws(4)]
  have "combine_scene_image h (RgbaList (map fst ps')) bg (depth_arg (Some (map snd ps')))
      = combine_scene_image h (RgbaList (map fst ps)) bg (depth_arg (Some (map snd ps)))"
    unfolding combine_scene_image_well_shaped [OF ws(1) assms(3)]
      combine_scene_image_well_shaped [OF assms(2,3)] astype_uint8_output_at o ..
  moreover have "combine_scene_image h (RgbaList (map fst ps')) bg (depth_arg None)
      = combine_scene_image h (RgbaList (map fst ps)) bg (depth_arg None)"
    unfolding combine_scene_image_well_shaped [OF ws(2) assms(3)]
      combine_scene_image_well_shaped [OF ws(3) assms(3)] astype_uint8_output_at o ..
  ultimately show ?thesis
    by (simp add: depth_arg_def)
qed

theorem batch_order_is_irrelevant_witness:
  "mset [([[[30, 40, 250, 255]]], [[Fin 2]]), ([[[200, 10, 20, 255]]], [[Fin 1]])]
     = mset [([[[200, 10, 20, 255]]], [[Fin 1]]), ([[[30, 40, 250, 255]]], [[Fin 2 :: fval]])]
   \<and> combine_scene_image (\<lambda>_. Depth2 [])
        (RgbaList [[[[30, 40, 250, 255]]], [[[200, 10, 20, 255]]]]) [[[7, 8, 9]]]
        (DepthList [[[Fin 2]], [[Fin 1]]])
     = combine_scene_image (\<lambda>_. Depth2 [])
        (RgbaList [[[[200, 10, 20, 255]]], [[[30, 40, 250, 255]]]]) [[[7, 8, 9]]]
        (DepthList [[[Fin 1]], [[Fin 2]]])
   \<and> combine_scene_image (\<lambda>_. Depth2 [])
        (RgbaList [[[[30, 40, 250, 255]]], [[[200, 10, 20, 255]]]]) [[[7, 8, 9]]] DepthNone
     = combine_scene_image (\<lambda>_. Depth2 [])
        (RgbaList [[[[200, 10, 20, 255]]], [[[30, 40, 250, 255]]]]) [[[7, 8, 9]]] DepthNone"
  using batch_order_is_irrelevant
    [of "[([[[30, 40, 250, 255]]], [[Fin 2]]), ([[[200, 10, 20, 255]]], [[Fin 1]])]"
        "[([[[200, 10, 20, 255]]], [[Fin 1]]), ([[[30, 40, 250, 255]]], [[Fin 2]])]"
        1 1 "[[[7, 8, 9]]]" "\<lambda>_. Depth2 []"]
  by (simp add: well_shaped_def has_shape3_def has_shape2_def add_mset_commute)

lemma broadcast3_shapes:
  assumes "has_shape3 H1 W1 C1 a" "has_shape3 H2 W2 C2 b" "0 < H1" "0 < W1" "0 < H2" "0 < W2"
  shows "broadcast3 f a b =
    bindE (broadcast_shapes (H1, W1, C1) (H2, W2, C2)) (\<lambda>(H, W, C).
      Inr (tab3 H W C (\<lambda>y x c. f (bget a y x c) (bget b y x c))))"
  using assms by (simp add: broadcast3_def shape3_has_shape3)

lemma broadcast_dim_cases:
  assumes "0 < m" "0 < n"
  shows "broadcast_dim m n = (if m = n \<or> m = 1 \<or> n = 1 then Inr (max m n) else Inl ValueError)"
  using assms by (auto simp: broadcast_dim_def)

lemma output_image_any_background:
  assumes ls: "list_all (has_shape3 H W 4) ls" "ls \<noteq> []" and pos: "0 < H" "0 < W"
    and bg: "has_shape3 Hb Wb 3 bg" "0 < Hb" "0 < Wb"
    and fits: "depth_fits (length ls) depth"
  shows "output_image ls bg (prepared H W depth) =
    (if (H = Hb \<or> H = 1 \<or> Hb = 1) \<and> (W = Wb \<or> W = 1 \<or> Wb = 1)
     then Inr (tab3 (max H Hb) (max W Wb) 3 (\<lambda>y x c.
        clip (sum_float32 (map (\<lambda>i.
            normalize8 (ls ! i ! (if H = 1 then 0 else y) ! (if W = 1 then 0 else x) ! c) *
            of_bool (valid_at ls depth i (if H = 1 then 0 else y) (if W = 1 then 0 else x)))
          [0..<length ls])) 0 1
        + (1 - of_bool (0 < (\<Sum>i\<leftarrow>[0..<length ls].
            of_bool (valid_at ls depth i (if H = 1 then 0 else y) (if W = 1 then 0 else x)) :: nat)))
          * normalize8 (bg ! (if Hb = 1 then 0 else y) ! (if Wb = 1 then 0 else x) ! c)))
     else Inl ValueError)"
proof -
  let ?N = "[0..<length ls]"
  let ?V = "\<lambda>i y x. valid_at ls depth i y x"
  let ?B = "\<lambda>i y x c. normalize8 (ls ! i ! y ! x ! c) * of_bool (?V i y x)"
  let ?count = "\<lambda>y x. (\<Sum>i\<leftarrow>?N. of_bool (?V i y x) :: nat)"
  let ?T = "\<lambda>y x c. sum_float32 (map (\<lambda>i. ?B i y x c) ?N)"
  let ?ok = "(H = Hb \<or> H = 1 \<or> Hb = 1) \<and> (W = Wb \<or> W = 1 \<or> Wb = 1)"
  let ?bgf = "\<lambda>y x c. (1 - of_bool (0 < ?count (if H = 1 then 0 else y) (if W = 1 then 0 else x)))
        * normalize8 (bg ! (if Hb = 1 then 0 else y) ! (if Wb = 1 then 0 else x) ! c)"
  from ls have ne: "?N \<noteq> []"
    by simp
  note contrib = contributions_shape [OF ls(1) pos fits]
  have counts: "sum_axis0 (map (map3 of_bool) (map (\<lambda>i. tab3 H W 1 (\<lambda>y x c. ?V i y x)) ?N))
      = tab3 H W 1 (\<lambda>y x c. ?count y x)"
  proof -
    have "map (map3 of_bool) (map (\<lambda>i. tab3 H W 1 (\<lambda>y x c. ?V i y x)) ?N)
        = map (\<lambda>i. tab3 H W 1 (\<lambda>y x c. of_bool (?V i y x) :: nat)) ?N"
      by (simp add: comp_def map3_has_shape3 [where H = H and W = W and C = 1]
          del: upt_Suc)
    then show ?thesis
      by (simp only: sum_axis0_tab3 [OF ne pos])
  qed
  have body_mask: "map3 (\<lambda>n. (0::nat) < n) (tab3 H W 1 (\<lambda>y x c. ?count y x))
      = tab3 H W 1 (\<lambda>y x c. 0 < ?count y x)"
    by (subst map3_has_shape3 [where H = H and W = W and C = 1]) (auto intro!: tab3_cong)
  have bgn: "map3 normalize_image8 bg = tab3 Hb Wb 3 (\<lambda>y x c. normalize8 (bg ! y ! x ! c))"
    by (simp add: map3_has_shape3 [OF bg(1)] normalize8_facts(6))
  have background: "broadcast3 (\<lambda>m v. (1 - of_bool m) * v)
        (tab3 H W 1 (\<lambda>y x c. 0 < ?count y x)) (map3 normalize_image8 bg)
      = (if ?ok then Inr (tab3 (max H Hb) (max W Wb) 3 ?bgf) else Inl ValueError)"
    unfolding bgn
    by (subst broadcast3_shapes [where ?H1.0 = H and ?W1.0 = W and ?C1.0 = 1
          and ?H2.0 = Hb and ?W2.0 = Wb and ?C2.0 = 3])
       (use pos bg in \<open>auto simp: broadcast_shapes_def broadcast_dim_cases bget_def
          shape3_has_shape3 [where H = H and W = W and C = 1]
          shape3_has_shape3 [where H = Hb and W = Wb and C = 3] max_def
          intro!: tab3_cong\<close>)
  have total: "sum32_axis0 (map (\<lambda>i. tab3 H W 3 (?B i)) ?N) = tab3 H W 3 ?T"
    by (rule sum32_axis0_tab3 [OF ne pos])
  have clipped: "map3 (\<lambda>v. clip v 0 1) (tab3 H W 3 ?T)
      = tab3 H W 3 (\<lambda>y x c. clip (?T y x c) 0 1)"
    by (subst map3_has_shape3 [where H = H and W = W and C = 3]) (auto intro!: tab3_cong)
  have final: "broadcast3 (+) (tab3 H W 3 (\<lambda>y x c. clip (?T y x c) 0 1))
        (tab3 (max H Hb) (max W Wb) 3 ?bgf)
      = Inr (tab3 (max H Hb) (max W Wb) 3 (\<lambda>y x c.
          clip (?T (if H = 1 then 0 else y) (if W = 1 then 0 else x) c) 0 1
          + ?bgf y x c))" if ?ok
    by (subst broadcast3_shapes [where ?H1.0 = H and ?W1.0 = W and ?C1.0 = 3
          and ?H2.0 = "max H Hb" and ?W2.0 = "max W Wb" and ?C2.0 = 3])
       (use pos bg that in \<open>auto simp: broadcast_shapes_def broadcast_dim_cases bget_def
          shape3_has_shape3 [where H = H and W = W and C = 3]
          shape3_has_shape3 [where H = "max H Hb" and W = "max W Wb" and C = 3] max_def
          intro!: tab3_cong\<close>)
  let ?g = "\<lambda>i. (tab3 H W 3 (?B i), tab3 H W 1 (\<lambda>y x c. ?V i y x))"
  have masks: "map snd (map ?g ?N) = map (\<lambda>i. tab3 H W 1 (\<lambda>y x c. ?V i y x)) ?N"
    by (simp add: comp_def)
  have bodies: "map fst (map ?g ?N) = map (\<lambda>i. tab3 H W 3 (?B i)) ?N"
    by (simp add: comp_def)
  have nonempty: "map (\<lambda>i. tab3 H W 1 (\<lambda>y x c. ?V i y x)) ?N \<noteq> []"
    using ls(2) by simp
  show ?thesis
  proof (cases ?ok)
    case True
    show ?thesis
      unfolding output_image_def Let_def contrib bindE_Inr masks bodies counts body_mask
        background total clipped if_P [OF True] final [OF True]
      using nonempty by simp
  next
    case False
    show ?thesis
      unfolding output_image_def Let_def contrib bindE_Inr masks bodies counts body_mask
        background total clipped if_not_P [OF False] bindE_Inl
      using nonempty by simp
  qed
qed

text \<open>
  Claim C8, as amended.  The function has no check of the background's size against the
  layers'.  When the heights (or the widths) differ and neither of the two is 1, the
  arithmetic of line 162 raises numpy's broadcasting \<^verbatim>\<open>ValueError\<close> and no image is
  returned.  When every differing length is 1 on one side, nothing is raised: the shorter
  axis is stretched and an image of the larger size is returned, as the counterexample
  after the witness evaluates for a background of one pixel.
\<close>

theorem resolution_mismatch_raises_only_when_not_broadcastable:
  assumes "well_shaped H W ls depth" "has_shape3 Hb Wb 3 bg" "0 < Hb" "0 < Wb"
  shows "((Hb \<noteq> H \<and> Hb \<noteq> 1 \<and> H \<noteq> 1) \<or> (Wb \<noteq> W \<and> Wb \<noteq> 1 \<and> W \<noteq> 1) \<longrightarrow>
            combine_scene_image h (RgbaList ls) bg (depth_arg depth) = (h, Inl ValueError))
       \<and> ((Hb = H \<or> Hb = 1 \<or> H = 1) \<and> (Wb = W \<or> Wb = 1 \<or> W = 1) \<longrightarrow>
            (\<exists>img. combine_scene_image h (RgbaList ls) bg (depth_arg depth) = (h, Inr img)
               \<and> has_shape3 (max H Hb) (max W Wb) 3 img))"
proof -
  from assms(1) have ls: "list_all (has_shape3 H W 4) ls" "ls \<noteq> []" and pos: "0 < H" "0 < W"
    by (auto simp: well_shaped_def)
  note out = output_image_any_background [OF ls pos assms(2-4) well_shaped_fits [OF assms(1)]]
  have run: "combine_scene_image h (RgbaList ls) bg (depth_arg depth) =
      (h, bindE (output_image ls bg (prepared H W depth)) (\<lambda>out.
            Inr (map3 (\<lambda>v. astype_uint8 (v * 255)) out)))"
    unfolding combine_scene_image_def prepare_depth_well_shaped [OF assms(1)] prod.case
      bindE_Inr expand_dims_def scene_rgba_arg.case ..
  have shape: "has_shape3 H' W' 3 (map3 f (tab3 H' W' 3 g))" for H' W' f g
    by (simp add: map3_has_shape3 [where H = H' and W = W' and C = 3])
  show ?thesis
    unfolding run out by (auto simp: shape)
qed

theorem resolution_mismatch_raises_only_when_not_broadcastable_witness:
  "well_shaped 2 1 [[[[10, 20, 30, 255]], [[40, 50, 60, 255]]]] None
   \<and> combine_scene_image (\<lambda>_. Depth2 []) (RgbaList [[[[10, 20, 30, 255]], [[40, 50, 60, 255]]]])
        [[[1, 2, 3]], [[4, 5, 6]], [[7, 8, 9]]] DepthNone = (\<lambda>_. Depth2 [], Inl ValueError)"
  using resolution_mismatch_raises_only_when_not_broadcastable
    [of 2 1 "[[[[10, 20, 30, 255]], [[40, 50, 60, 255]]]]" None 3 1
        "[[[1, 2, 3]], [[4, 5, 6]], [[7, 8, 9]]]" "\<lambda>_. Depth2 []"]
  by (simp add: well_shaped_def has_shape3_def has_shape2_def depth_arg_def)

theorem small_background_is_broadcast_counterexample:
  "snd (combine_scene_image (\<lambda>_. Depth2 [])
          (RgbaList [[[[10, 20, 30, 255], [0, 0, 0, 0]], [[0, 0, 0, 0], [40, 50, 60, 255]]]])
          [[[7, 8, 9]]] DepthNone)
     = Inr [[[10, 20, 30], [7, 8, 9]], [[7, 8, 9], [40, 50, 60]]]"
  by code_simp

lemma single_raster_is_batch_of_one:
  "combine_scene_image h (RgbaArray r) bg d = combine_scene_image h (RgbaList [r]) bg d"
  by (simp add: combine_scene_image_def expand_dims_def)

text \<open>
  Claim C1.  For \<^verbatim>\<open>scene_rgba\<close> the claim holds: a single raster is the batch of one
  (lemma \<open>single_raster_is_batch_of_one\<close>).  For \<^verbatim>\<open>scene_depth\<close> it fails: a
  single depth raster of two dimensions only gets a last axis (line 140), so its rows are
  read as the batch.  Evaluated below: a layer of two rows and one column that covers both
  pixels, with depths 2.0 and 1.0.  Passed as single arrays, row 0 is compared with the
  column's minimum 1.0, the layer is masked out and the background is returned; passed as
  lists of one, the layer is shown at both pixels.
\<close>

theorem single_depth_raster_is_not_promoted:
  "snd (combine_scene_image (\<lambda>_. Depth2 [[Fin 2], [Fin 1]])
          (RgbaArray [[[10, 20, 30, 255]], [[10, 20, 30, 255]]])
          [[[1, 2, 3]], [[4, 5, 6]]] (DepthArray 0))
     = Inr [[[1, 2, 3]], [[4, 5, 6]]]
   \<and> snd (combine_scene_image (\<lambda>_. Depth2 [[Fin 2], [Fin 1]])
          (RgbaList [[[[10, 20, 30, 255]], [[10, 20, 30, 255]]]])
          [[[1, 2, 3]], [[4, 5, 6]]] (DepthList [[[Fin 2], [Fin 1]]]))
     = Inr [[[10, 20, 30]], [[10, 20, 30]]]"
  by code_simp

end
